theory Spec2Isabelle
  imports Main "HOL-Library.AList"
begin

section \<open>The pashmak program object (src/core/program.py)\<close>

text \<open>
  The interpreter keeps every parsed operation as a Python dictionary and passes
  references to these dictionaries around: the same dictionary can sit in the operation
  list, in the body of a declared function and in the recorded runtime error. The model
  therefore keeps an explicit object store \<open>heap\<close>: an operation is referred to by its
  address (its position in the store), the operation list and the function bodies are
  lists of addresses, and \<open>set_operation_index\<close> writes through the address.
  Python integers are \<open>int\<close>; dictionaries are association lists read with \<open>map_of\<close> and
  written with \<open>AList.update\<close> (which keeps, as a Python dictionary does, the position of
  a key that is already present).

  The variable store holds references too: \<open>dict(self.variables)\<close> in \<open>exec_func\<close> is a
  shallow copy, a new dictionary whose values are the objects of the old one. The values
  of the variables therefore live in a second object store \<open>objects\<close>, and the variable
  store and the \<open>vars\<close> of a call frame map a name to the address of its value: copying
  the dictionary copies the addresses, and a value that is changed in place is changed
  for every dictionary that refers to it.
\<close>

subsection \<open>Data\<close>

type_synonym addr = nat

record op =
  command :: string
  args :: "string list"
  args_str :: string
  str :: string
  index :: "int option"

text \<open>Python values, as far as the program object itself builds them.\<close>

datatype val =
  VNone
  | VStr string
  | VInt int
  | VList "val list"
  | VDict "(string \<times> val) list"

record frame =
  entry_point :: int
  vars :: "(string \<times> addr) list"

text \<open>
  The fields of \<open>Program.__init__\<close>, in its order. \<open>current_func\<close> is the attribute that
  \<open>run\<close> probes (absent: \<open>None\<close>); \<open>heap\<close> is the object store of the operations,
  \<open>stdout\<close> the lines printed so far and \<open>objects\<close> the object store of the values that
  variables are bound to.
\<close>

record program =
  variables :: "(string \<times> addr) list"
  states :: "frame list"
  functions_tab :: "(string \<times> addr list) list"
  operations :: "addr list"
  sections :: "(string \<times> int) list"
  mem :: val
  is_test :: bool
  output_str :: string
  runtime_error :: "(string \<times> string \<times> addr) option"
  is_in_try :: "string option"
  runed_functions :: "int list"
  current_namespace :: string
  used_namespaces :: "string list"
  included_modules :: "string list"
  current_step :: int
  main_filename :: string
  current_func :: "string option"
  heap :: "op list"
  stdout :: "string list"
  objects :: "val list"

text \<open>
  How a call of a method ends: it returns, it raises a Python exception (with the text of
  \<open>str(ex)\<close>), or \<open>sys.exit(1)\<close> ends the process. Each carries the state reached.
\<close>

datatype outcome =
  Returned program
  | Raised string program
  | Exited program

fun outcome_state :: "outcome \<Rightarrow> program" where
  "outcome_state (Returned st) = st"
| "outcome_state (Raised ex st) = st"
| "outcome_state (Exited st) = st"

subsection \<open>Python lists and strings\<close>

text \<open>\<open>xs[i]\<close>: a negative index counts from the end, an index out of range raises.\<close>

definition py_nth :: "'a list \<Rightarrow> int \<Rightarrow> 'a option" where
  "py_nth xs i =
     (let n = int (length xs) in
      if 0 \<le> i \<and> i < n then Some (xs ! nat i)
      else if - n \<le> i \<and> i < 0 then Some (xs ! nat (n + i))
      else None)"

text \<open>\<open>xs.insert(i, x)\<close>: the index is clipped to the list, a negative one counts from the end.\<close>

definition py_insert :: "'a list \<Rightarrow> int \<Rightarrow> 'a \<Rightarrow> 'a list" where
  "py_insert xs i x =
     (let n = int (length xs);
          j = (if i < 0 then max 0 (n + i) else min i n)
      in take (nat j) xs @ x # drop (nat j) xs)"

definition digit_char :: "nat \<Rightarrow> char" where
  "digit_char d = char_of (48 + d)"

function str_nat :: "nat \<Rightarrow> string" where
  "str_nat n = (if n < 10 then [digit_char n] else str_nat (n div 10) @ [digit_char (n mod 10)])"
  by pat_completeness auto
termination
  by (relation "measure (\<lambda>n. n)") auto

declare str_nat.simps [simp del]

text \<open>\<open>str(i)\<close> of an integer.\<close>

definition str_int :: "int \<Rightarrow> string" where
  "str_int i = (if i < 0 then CHR ''-'' # str_nat (nat (- i)) else str_nat (nat i))"

text \<open>
  \<open>repr(s)\<close> of a string, whose characters are the code points below 256. The quote is
  the single quote, or the double quote when the string has a single quote and no double
  quote; the quote and the backslash are written after a backslash, tab, newline and
  carriage return as a backslash and the letter \<open>t\<close>, \<open>n\<close> or \<open>r\<close>, and every other
  character that is not printable (the control characters, \<open>0x7f\<close> to \<open>0xa0\<close> and
  \<open>0xad\<close>) as a backslash, the letter \<open>x\<close> and two lower-case hexadecimal digits.
\<close>

definition hex_digit :: "nat \<Rightarrow> char" where
  "hex_digit d = (if d < 10 then char_of (48 + d) else char_of (87 + d))"

definition printable :: "char \<Rightarrow> bool" where
  "printable c \<longleftrightarrow>
     (let n = (of_char c :: nat) in 32 \<le> n \<and> \<not> (127 \<le> n \<and> n \<le> 160) \<and> n \<noteq> 173)"

definition repr_char :: "char \<Rightarrow> char \<Rightarrow> string" where
  "repr_char quote c =
     (if c = quote \<or> c = CHR 0x5C then [CHR 0x5C, c]
      else if c = CHR 0x09 then [CHR 0x5C, CHR ''t'']
      else if c = CHR 0x0A then [CHR 0x5C, CHR ''n'']
      else if c = CHR 0x0D then [CHR 0x5C, CHR ''r'']
      else if printable c then [c]
      else [CHR 0x5C, CHR ''x'', hex_digit ((of_char c :: nat) div 16),
            hex_digit ((of_char c :: nat) mod 16)])"

definition repr_str :: "string \<Rightarrow> string" where
  "repr_str s =
     (let quote = (if CHR 0x27 \<in> set s \<and> CHR 0x22 \<notin> set s then CHR 0x22 else CHR 0x27)
      in quote # concat (map (repr_char quote) s) @ [quote])"

text \<open>\<open>str(KeyError(k))\<close> is \<open>repr(k)\<close>.\<close>

definition key_error :: "string \<Rightarrow> string" where
  "key_error k = repr_str k"

definition index_error :: string where
  "index_error = ''list index out of range''"

subsection \<open>The parser's single operations\<close>

text \<open>
  Modelled from the spec: the parser (module \<open>syntax.parser\<close>) is not part of the given
  sources. Section 6 of the specification says that the core re-invokes the parser to
  synthesize the single-operation utilities \<open>pass\<close> and \<open>popstate\<close>, each a new operation
  with a command name, positional arguments, raw argument text and source text. A parsed
  operation carries no index yet.
\<close>

definition parse_single :: "string \<Rightarrow> op" where
  "parse_single name = \<lparr>command = name, args = [], args_str = [], str = name, index = None\<rparr>"

text \<open>A new dictionary is a new object: it gets the next address of the store.\<close>

definition new_op :: "program \<Rightarrow> op \<Rightarrow> addr \<times> program" where
  "new_op st x = (length (heap st), st\<lparr>heap := heap st @ [x]\<rparr>)"

subsection \<open>Small methods\<close>

text \<open>\<open>set_operation_index\<close>: writes the current step into the operation's \<open>index\<close> key.\<close>

definition set_operation_index :: "program \<Rightarrow> addr \<Rightarrow> program" where
  "set_operation_index st a =
     st\<lparr>heap := (heap st)[a := (heap st ! a)\<lparr>index := Some (current_step st)\<rparr>]\<rparr>"

text \<open>\<open>get_mem\<close>: returns the memory value and empties it.\<close>

definition get_mem :: "program \<Rightarrow> val \<times> program" where
  "get_mem st = (mem st, st\<lparr>mem := VNone\<rparr>)"

text \<open>\<open>update_section_indexes\<close>: one pass over the section table.\<close>

definition update_section_indexes :: "program \<Rightarrow> int \<Rightarrow> program" where
  "update_section_indexes st after_index =
     st\<lparr>sections := map (\<lambda>(k, v). (k, if v > after_index then v + 1 else v)) (sections st)\<rparr>"

subsection \<open>Raising an error\<close>

text \<open>
  The stack trace of \<open>raise_error\<close>: one line per frame. Indexing the operation list can
  raise \<open>IndexError\<close>, which the \<open>except KeyError\<close> does not catch; an operation without an
  \<open>index\<close> key raises \<open>KeyError\<close> before anything is printed, and the frame is passed over.
\<close>

definition trace_line :: "int \<Rightarrow> string \<Rightarrow> string" where
  "trace_line i s = CHR 0x09 # ''in '' @ str_int i @ '': '' @ s"

fun print_states :: "frame list \<Rightarrow> program \<Rightarrow> outcome" where
  "print_states [] st = Returned st"
| "print_states (state # rest) st =
     (case py_nth (operations st) (entry_point state) of
        None \<Rightarrow> Raised index_error st
      | Some a \<Rightarrow>
          (case index (heap st ! a) of
             None \<Rightarrow> print_states rest st
           | Some i \<Rightarrow>
               print_states rest (st\<lparr>stdout := stdout st @ [trace_line i (str (heap st ! a))]\<rparr>)))"

definition error_payload :: "string \<Rightarrow> string \<Rightarrow> int \<Rightarrow> val" where
  "error_payload error_type message i =
     VDict [(''type'', VStr error_type), (''message'', VStr message), (''index'', VInt i)]"

text \<open>
  \<open>raise_error\<close>. The try-context holds the label as a string, which \<open>str\<close> returns as
  it is. The label is looked up after the try-context has been cleared, and the
  operation's index is read after the program counter has been set, so a \<open>KeyError\<close> of
  either lookup leaves these writes behind. Outside test mode the error is printed and
  the process exits.
\<close>

definition raise_error :: "program \<Rightarrow> string \<Rightarrow> string \<Rightarrow> addr \<Rightarrow> outcome" where
  "raise_error st error_type message a =
     (case is_in_try st of
        Some section_index \<Rightarrow>
          (let st1 = st\<lparr>is_in_try := None\<rparr> in
           case map_of (sections st1) section_index of
             None \<Rightarrow> Raised (key_error section_index) st1
           | Some new_step \<Rightarrow>
               (let st2 = st1\<lparr>current_step := new_step - 1\<rparr> in
                case index (heap st2 ! a) of
                  None \<Rightarrow> Raised (key_error ''index'') st2
                | Some i \<Rightarrow> Returned (st2\<lparr>mem := error_payload error_type message i\<rparr>)))
      | None \<Rightarrow>
          if is_test st then Returned (st\<lparr>runtime_error := Some (error_type, message, a)\<rparr>)
          else
            (let st1 = st\<lparr>stdout := stdout st @ [error_type @ '': '' @ message @ '':'']\<rparr> in
             case print_states (states st1) st1 of
               Returned st2 \<Rightarrow>
                 (case index (heap st2 ! a) of
                    None \<Rightarrow> Raised (key_error ''index'') st2
                  | Some i \<Rightarrow>
                      Exited (st2\<lparr>stdout := stdout st2 @ [trace_line i (str (heap st2 ! a))]\<rparr>))
             | other \<Rightarrow> other))"

subsection \<open>Variable accessors\<close>



definition set_var :: "program \<Rightarrow> string \<Rightarrow> val \<Rightarrow> program" where
  "set_var st name v =
     (if states st = [] then
        st\<lparr>variables := AList.update name (length (objects st)) (variables st),
           objects := objects st @ [v]\<rparr>
      else
        st\<lparr>states := butlast (states st) @
             [(last (states st))\<lparr>vars := AList.update name (length (objects st))
                                          (vars (last (states st)))\<rparr>],
           objects := objects st @ [v]\<rparr>)"

definition change_object :: "program \<Rightarrow> addr \<Rightarrow> val \<Rightarrow> program" where
  "change_object st r v = st\<lparr>objects := (objects st)[r := v]\<rparr>"

text \<open>\<open>Program.__init__\<close>; the working directory of the process is an argument.\<close>

definition Program :: "bool \<Rightarrow> string list \<Rightarrow> string \<Rightarrow> program" where
  "Program is_test_arg args_arg cwd =
     (let st = \<lparr>variables = [], states = [], functions_tab = [(''mem'', [])],
                operations = [], sections = [], mem = VNone, is_test = is_test_arg,
                output_str = [], runtime_error = None, is_in_try = None,
                runed_functions = [], current_namespace = [], used_namespaces = [],
                included_modules = [], current_step = 0, main_filename = cwd @ ''/a'',
                current_func = None, heap = [], stdout = [], objects = []\<rparr>;
          st1 = set_var st ''argv'' (VList (map VStr args_arg))
      in set_var st1 ''argc'' (VInt (int (length args_arg))))"

subsection \<open>Executing a function body\<close>

text \<open>
  The loop of \<open>exec_func\<close> over the body, with its two local variables \<open>i\<close> and
  \<open>is_in_func\<close>. A \<open>section\<close> operation without an argument raises \<open>IndexError\<close>.
\<close>

fun exec_func_loop :: "addr list \<Rightarrow> int \<Rightarrow> bool \<Rightarrow> program \<Rightarrow> (string \<times> program) + (int \<times> program)" where
  "exec_func_loop [] i is_in_func st = Inr (i, st)"
| "exec_func_loop (func_op # rest) i is_in_func st =
     (let st1 = set_operation_index st func_op;
          func_op_parsed = heap st1 ! func_op
      in if command func_op_parsed = ''section'' \<and> \<not> is_in_func then
           (case args func_op_parsed of
              [] \<Rightarrow> Inl (index_error, st1)
            | section_name # _ \<Rightarrow>
                exec_func_loop rest i is_in_func
                  (st1\<lparr>sections := AList.update section_name (i + 1) (sections st1)\<rparr>))
         else
           (let is_in_func' =
                  (if command func_op_parsed = ''func'' then True
                   else if command func_op_parsed = ''endfunc'' then False
                   else is_in_func);
                st2 = st1\<lparr>operations := py_insert (operations st1) (i + 1) func_op\<rparr>;
                st3 = update_section_indexes st2 (i + 1)
            in exec_func_loop rest (i + 1) is_in_func' st3))"

text \<open>
  The frame that \<open>exec_func\<close> appends: \<open>dict(self.variables)\<close> is a new dictionary with
  the entries of the main variable store, bound to the same objects.
\<close>

definition push_state :: "program \<Rightarrow> program" where
  "push_state st =
     st\<lparr>states := states st @ [\<lparr>entry_point = current_step st, vars = variables st\<rparr>]\<rparr>"

definition insert_popstate :: "program \<Rightarrow> int \<Rightarrow> program" where
  "insert_popstate st i =
     (let (p, st1) = new_op st (parse_single ''popstate'');
          st2 = st1\<lparr>operations := py_insert (operations st1) (i + 1) p\<rparr>
      in update_section_indexes st2 (i + 1))"

definition exec_func :: "program \<Rightarrow> addr list \<Rightarrow> bool \<Rightarrow> outcome" where
  "exec_func st func_body with_state =
     (let st1 = (if with_state then push_state st else st) in
      if current_step st1 \<in> set (runed_functions st1) \<and> with_state then Returned st1
      else
        (let st2 = (if with_state
                    then st1\<lparr>runed_functions := runed_functions st1 @ [current_step st1]\<rparr>
                    else st1)
         in case exec_func_loop func_body (current_step st2) False st2 of
              Inl (ex, st3) \<Rightarrow> Raised ex st3
            | Inr (i, st3) \<Rightarrow>
                if with_state then Returned (insert_popstate st3 i) else Returned st3))"

subsection \<open>Running one operation\<close>

text \<open>
  The handlers \<open>run_set\<close>, \<open>run_goto\<close>, \<open>run_try\<close>, ... of the built-in commands are defined
  outside \<open>program.py\<close>; \<open>run\<close> only selects one by the command name. They are an
  argument \<open>hs\<close> of the model: \<open>hs name a st\<close> is the outcome of the handler of the command
  \<open>name\<close> on the operation at address \<open>a\<close>. The evaluation of the argument text of a call
  (textual substitution of the variables, then the host language's \<open>eval\<close>) is the
  argument \<open>ev\<close>: it yields the value, or the text of the exception raised.
\<close>

type_synonym handlers = "string \<Rightarrow> addr \<Rightarrow> program \<Rightarrow> outcome"
type_synonym evaluator = "program \<Rightarrow> string \<Rightarrow> string + val"

definition builtin_commands :: "string list" where
  "builtin_commands =
     [''set'', ''free'', ''copy'', ''out'', ''read'', ''return'', ''func'', ''required'',
      ''typeof'', ''system'', ''include'', ''goto'', ''gotoif'', ''fread'', ''fwrite'',
      ''chdir'', ''cwd'', ''isset'', ''try'', ''endtry'', ''eval'', ''arraypush'',
      ''arraypop'', ''python'', ''namespace'', ''endnamespace'', ''use'']"

text \<open>The \<open>popstate\<close> branch of \<open>run\<close>.\<close>

definition run_popstate :: "program \<Rightarrow> program" where
  "run_popstate st = (if states st \<noteq> [] then st\<lparr>states := butlast (states st)\<rparr> else st)"

text \<open>
  The search for the function body in \<open>run\<close>: the loop over the used namespaces assigns
  \<open>func_body\<close> at every namespace that declares the name, and \<open>not func_body\<close> holds for
  \<open>None\<close> and for an empty body.
\<close>

fun used_lookup :: "(string \<times> addr list) list \<Rightarrow> string \<Rightarrow> string list \<Rightarrow> addr list option \<Rightarrow> addr list option" where
  "used_lookup fs op_name [] func_body = func_body"
| "used_lookup fs op_name (used_namespace # rest) func_body =
     used_lookup fs op_name rest
       (case map_of fs (used_namespace @ ''.'' @ op_name) of
          Some b \<Rightarrow> Some b
        | None \<Rightarrow> func_body)"

definition lookup_func :: "program \<Rightarrow> string \<Rightarrow> addr list option" where
  "lookup_func st op_name =
     (case map_of (functions_tab st) (current_namespace st @ op_name) of
        Some b \<Rightarrow> Some b
      | None \<Rightarrow>
          (let func_body = used_lookup (functions_tab st) op_name (used_namespaces st) None in
           if func_body = None \<or> func_body = Some [] then map_of (functions_tab st) op_name
           else func_body))"

definition undefined_operation :: "string \<Rightarrow> string" where
  "undefined_operation op_name = ''undefined operation '' @ CHR 0x22 # op_name @ [CHR 0x22]"

text \<open>The call of a declared function: the last part of \<open>run\<close>.\<close>

definition run_call :: "evaluator \<Rightarrow> program \<Rightarrow> addr \<Rightarrow> outcome" where
  "run_call ev st a =
     (let op_name = command (heap st ! a) in
      case lookup_func st op_name of
        None \<Rightarrow> raise_error st ''SyntaxError'' (undefined_operation op_name) a
      | Some func_body \<Rightarrow>
          (case (if args_str (heap st ! a) \<noteq> [] then ev st (args_str (heap st ! a))
                 else Inr (VStr [])) of
             Inl ex \<Rightarrow> raise_error st ''RuntimeError'' ex a
           | Inr v \<Rightarrow>
               (case exec_func (st\<lparr>mem := v\<rparr>) func_body True of
                  Raised ex st1 \<Rightarrow> raise_error st1 ''RuntimeError'' ex a
                | other \<Rightarrow> other)))"

definition run_command :: "handlers \<Rightarrow> evaluator \<Rightarrow> program \<Rightarrow> addr \<Rightarrow> outcome" where
  "run_command hs ev st a =
     (let op_name = command (heap st ! a) in
      if op_name \<in> set builtin_commands then hs op_name a st
      else if op_name = ''pass'' then Returned st
      else run_call ev st a)"

definition run :: "handlers \<Rightarrow> evaluator \<Rightarrow> program \<Rightarrow> addr \<Rightarrow> outcome" where
  "run hs ev st0 a =
     (let st = set_operation_index st0 a;
          op_name = command (heap st ! a)
      in if op_name = ''endfunc'' then hs ''endfunc'' a st
         else if op_name = ''popstate'' then Returned (run_popstate st)
         else
           (case current_func st of
              None \<Rightarrow> run_command hs ev st a
            | Some f \<Rightarrow>
                (case map_of (functions_tab st) f of
                   None \<Rightarrow> run_command hs ev st a
                 | Some body \<Rightarrow>
                     Returned (st\<lparr>functions_tab := AList.update f (body @ [a]) (functions_tab st)\<rparr>))))"

subsection \<open>Starting the program\<close>

definition link_section :: "program \<Rightarrow> nat \<Rightarrow> string \<Rightarrow> program" where
  "link_section st i arg =
     (let st1 = st\<lparr>sections := AList.update arg (int i + 1) (sections st)\<rparr>;
          (p, st2) = new_op st1 (parse_single ''pass'')
      in st2\<lparr>operations := (operations st2)[i := p]\<rparr>)"

text \<open>
  The first loop of \<open>start\<close>, which loads the sections. (The handler that \<open>start\<close>
  installs for the interrupt signal runs at a moment that the program does not choose;
  it is not part of the model.)
\<close>

function link_loop :: "nat \<Rightarrow> bool \<Rightarrow> program \<Rightarrow> outcome" where
  "link_loop i is_in_func st =
     (if i < length (operations st) then
        (let st1 = set_operation_index st (operations st ! i);
             current_op = heap st1 ! (operations st ! i)
         in if command current_op = ''section'' then
              (if \<not> is_in_func then
                 (case args current_op of
                    [] \<Rightarrow> Raised index_error st1
                  | arg # _ \<Rightarrow> link_loop (i + 1) is_in_func (link_section st1 i arg))
               else link_loop (i + 1) is_in_func st1)
            else if command current_op = ''func'' then link_loop (i + 1) True st1
            else if command current_op = ''endfunc'' then link_loop (i + 1) False st1
            else link_loop (i + 1) is_in_func st1)
      else Returned st)"
  by pat_completeness auto
termination
  by (relation "measure (\<lambda>(i, is_in_func, st). length (operations st) - i)")
    (auto simp: set_operation_index_def link_section_def new_op_def)

declare link_loop.simps [simp del]

text \<open>
  One turn of the second loop of \<open>start\<close>: the operation at the current step is run, an
  exception is turned into a \<open>RuntimeError\<close>, and the step is advanced. An exception of
  the handler itself leaves \<open>start\<close>.
\<close>

definition start_step :: "handlers \<Rightarrow> evaluator \<Rightarrow> program \<Rightarrow> outcome" where
  "start_step hs ev st =
     (case (case py_nth (operations st) (current_step st) of
              None \<Rightarrow> Raised index_error st
            | Some a \<Rightarrow> run hs ev st a) of
        Returned st1 \<Rightarrow> Returned (st1\<lparr>current_step := current_step st1 + 1\<rparr>)
      | Raised ex st1 \<Rightarrow>
          (case py_nth (operations st1) (current_step st1) of
             None \<Rightarrow> Raised index_error st1
           | Some a1 \<Rightarrow>
               (case raise_error (set_operation_index st1 a1) ''RuntimeError'' ex a1 of
                  Returned st2 \<Rightarrow> Returned (st2\<lparr>current_step := current_step st2 + 1\<rparr>)
                | other \<Rightarrow> other))
      | Exited st1 \<Rightarrow> Exited st1)"

text \<open>
  The second loop, with a bound on the number of turns: \<open>None\<close> when the bound is reached
  before the loop ends.
\<close>

fun start_loop :: "nat \<Rightarrow> handlers \<Rightarrow> evaluator \<Rightarrow> program \<Rightarrow> outcome option" where
  "start_loop 0 hs ev st = None"
| "start_loop (Suc n) hs ev st =
     (if current_step st < int (length (operations st)) then
        (case start_step hs ev st of
           Returned st1 \<Rightarrow> start_loop n hs ev st1
         | other \<Rightarrow> Some other)
      else Some (Returned st))"

definition start :: "nat \<Rightarrow> handlers \<Rightarrow> evaluator \<Rightarrow> program \<Rightarrow> outcome option" where
  "start n hs ev st =
     (case link_loop 0 False (st\<lparr>current_step := 0\<rparr>) of
        Returned st1 \<Rightarrow> start_loop n hs ev (st1\<lparr>current_step := 0\<rparr>)
      | other \<Rightarrow> Some other)"

subsection \<open>What a body splices\<close>

text \<open>
  The operations of a body that the loop of \<open>exec_func\<close> inserts, and the labels it
  records, read off the body: a \<open>section\<close> outside a function definition is recorded
  and not inserted, every other operation is inserted.
\<close>

fun inserted_ops :: "op list \<Rightarrow> bool \<Rightarrow> addr list \<Rightarrow> addr list" where
  "inserted_ops h f [] = []"
| "inserted_ops h f (a # as) =
     (if command (h ! a) = ''section'' \<and> \<not> f then inserted_ops h f as
      else a # inserted_ops h
             (if command (h ! a) = ''func'' then True
              else if command (h ! a) = ''endfunc'' then False else f) as)"

fun declared_sections :: "op list \<Rightarrow> bool \<Rightarrow> addr list \<Rightarrow> string list" where
  "declared_sections h f [] = []"
| "declared_sections h f (a # as) =
     (if command (h ! a) = ''section'' \<and> \<not> f then
        (case args (h ! a) of [] \<Rightarrow> [] | n # _ \<Rightarrow> n # declared_sections h f as)
      else declared_sections h
             (if command (h ! a) = ''func'' then True
              else if command (h ! a) = ''endfunc'' then False else f) as)"

text \<open>Two stores hold the same commands and arguments at every address.\<close>

definition same_code :: "op list \<Rightarrow> op list \<Rightarrow> bool" where
  "same_code h h' \<longleftrightarrow> (\<forall>a. command (h' ! a) = command (h ! a) \<and> args (h' ! a) = args (h ! a))"

definition next_in_func :: "string \<Rightarrow> bool \<Rightarrow> bool" where
  "next_in_func c f = (if c = ''func'' then True else if c = ''endfunc'' then False else f)"

subsection \<open>Frames and events\<close>

text \<open>The state in which the loop of \<open>exec_func\<close> ends, whether it raised or not.\<close>

definition loop_state :: "(string \<times> program) + (int \<times> program) \<Rightarrow> program" where
  "loop_state r = (case r of Inl (ex, st) \<Rightarrow> st | Inr (i, st) \<Rightarrow> st)"

text \<open>Two states with the same call stack, variables, program counter and call sites.\<close>

definition same_frame :: "program \<Rightarrow> program \<Rightarrow> bool" where
  "same_frame st st' \<longleftrightarrow>
     states st' = states st \<and> variables st' = variables st \<and> current_step st' = current_step st
     \<and> runed_functions st' = runed_functions st"

text \<open>
  What happens to the call stack and the variables while a program runs, as a list of
  events: a call of \<open>exec_func\<close> at some program counter, a \<open>popstate\<close> operation, a
  write of a variable, a change of a value in place. \<open>depth_after\<close> counts the frames,
  and \<open>nested d\<close> holds for the events of a function body that starts at depth \<open>d\<close> above
  its own frame: every \<open>popstate\<close> in it finds a frame of a call made in the body, and
  every such frame is popped at the end. \<open>changed_objects\<close> are the addresses of the
  values that the events change in place.
\<close>

datatype stack_event =
  Exec_func int "addr list" bool
  | Popstate
  | Set_var string val
  | Change_object addr val

fun apply_event :: "program \<Rightarrow> stack_event \<Rightarrow> program" where
  "apply_event st (Exec_func c body ws) = outcome_state (exec_func (st\<lparr>current_step := c\<rparr>) body ws)"
| "apply_event st Popstate = run_popstate st"
| "apply_event st (Set_var name v) = set_var st name v"
| "apply_event st (Change_object r v) = change_object st r v"

fun depth_after :: "nat \<Rightarrow> stack_event \<Rightarrow> nat" where
  "depth_after d (Exec_func c body ws) = (if ws then Suc d else d)"
| "depth_after d Popstate = d - 1"
| "depth_after d (Set_var name v) = d"
| "depth_after d (Change_object r v) = d"



subsection \<open>The resolution order of the specification\<close>

text \<open>
  The order in which section 4.3 and 4.4 of the specification resolve a name: the
  current namespace, then the used namespaces in the order of their declaration, first
  match wins, then the global name. It is compared with \<open>lookup_func\<close> below.
\<close>

fun used_first :: "(string \<times> addr list) list \<Rightarrow> string \<Rightarrow> string list \<Rightarrow> addr list option" where
  "used_first fs op_name [] = None"
| "used_first fs op_name (used_namespace # rest) =
     (case map_of fs (used_namespace @ ''.'' @ op_name) of
        Some b \<Rightarrow> Some b
      | None \<Rightarrow> used_first fs op_name rest)"

definition lookup_func_spec :: "program \<Rightarrow> string \<Rightarrow> addr list option" where
  "lookup_func_spec st op_name =
     (case map_of (functions_tab st) (current_namespace st @ op_name) of
        Some b \<Rightarrow> Some b
      | None \<Rightarrow>
          (case used_first (functions_tab st) op_name (used_namespaces st) of
             Some b \<Rightarrow> Some b
           | None \<Rightarrow> map_of (functions_tab st) op_name))"

text \<open>
  The names that \<open>run\<close> passes on to the search for a function, and the states in which
  it does not append the operation to a function that is being declared.
\<close>

definition not_a_command :: "string \<Rightarrow> bool" where
  "not_a_command op_name \<longleftrightarrow>
     op_name \<noteq> ''endfunc'' \<and> op_name \<noteq> ''popstate'' \<and> op_name \<noteq> ''pass''
     \<and> op_name \<notin> set builtin_commands"

definition not_recording :: "program \<Rightarrow> bool" where
  "not_recording st \<longleftrightarrow>
     (case current_func st of None \<Rightarrow> True | Some f \<Rightarrow> map_of (functions_tab st) f = None)"

subsection \<open>Label declarations in the operation list\<close>

text \<open>
  \<open>label_at h f ops j\<close>: the operation at position \<open>j\<close> of \<open>ops\<close> is a \<open>section\<close> outside
  every function definition, where \<open>f\<close> tells whether a definition is open at the start
  of \<open>ops\<close>; these are the label declarations that the first loop of \<open>start\<close> handles.
  \<open>label_name\<close> is the label, \<open>ops_stored\<close> says that the operations from position \<open>i\<close> on
  are objects of the store, and \<open>link_next\<close> is the state after one turn of the loop that
  does not raise.
\<close>

fun label_at :: "op list \<Rightarrow> bool \<Rightarrow> addr list \<Rightarrow> nat \<Rightarrow> bool" where
  "label_at h f [] j = False"
| "label_at h f (a # as) 0 = (command (h ! a) = ''section'' \<and> \<not> f)"
| "label_at h f (a # as) (Suc j) = label_at h (next_in_func (command (h ! a)) f) as j"

definition label_name :: "program \<Rightarrow> nat \<Rightarrow> string" where
  "label_name st j = hd (args (heap st ! (operations st ! j)))"

definition is_label :: "nat \<Rightarrow> bool \<Rightarrow> program \<Rightarrow> bool" where
  "is_label i f st \<longleftrightarrow> command (heap st ! (operations st ! i)) = ''section'' \<and> \<not> f"

definition ops_stored :: "nat \<Rightarrow> program \<Rightarrow> bool" where
  "ops_stored i st \<longleftrightarrow> (\<forall>a \<in> set (drop i (operations st)). a < length (heap st))"

definition link_next :: "nat \<Rightarrow> bool \<Rightarrow> program \<Rightarrow> program" where
  "link_next i f st =
     (if command (heap st ! (operations st ! i)) = ''section'' \<and> \<not> f
      then link_section (set_operation_index st (operations st ! i)) i (label_name st i)
      else set_operation_index st (operations st ! i))"

subsection \<open>Example programs\<close>

text \<open>Concrete states on which the theorems below are instantiated.\<close>

definition mk_op :: "string \<Rightarrow> string list \<Rightarrow> string \<Rightarrow> op" where
  "mk_op c as s = \<lparr>command = c, args = as, args_str = s, str = c, index = None\<rparr>"

text \<open>
  Handlers that do nothing, and an evaluator that returns the argument text as a string.
\<close>

definition idle_handlers :: handlers where
  "idle_handlers name a st = Returned st"

definition literal_evaluator :: evaluator where
  "literal_evaluator st s = Inr (VStr s)"

text \<open>An armed try block: step 1 is running, the label \<open>err\<close> stands for step 3.\<close>

definition armed_example :: program where
  "armed_example =
     (Program True [] [])\<lparr>operations := [0, 1, 2],
        heap := [(mk_op ''try'' [''err''] [])\<lparr>index := Some 0\<rparr>,
                 (mk_op ''boom'' [] [])\<lparr>index := Some 1\<rparr>,
                 mk_op ''pass'' [] []],
        sections := [(''err'', 3)], is_in_try := Some ''err'', current_step := 1,
        mem := VStr ''pending''\<rparr>"

text \<open>A program that consists of one \<open>popstate\<close>, before its first step.\<close>

definition popstate_example :: program where
  "popstate_example =
     (Program True [] [])\<lparr>operations := [0], heap := [mk_op ''popstate'' [] []]\<rparr>"

text \<open>
  A call site at step 0 of a function whose body is an \<open>out\<close> and a label; the labels
  \<open>top\<close> and \<open>done\<close> stand for the steps 1 and 3.
\<close>

definition splice_example :: program where
  "splice_example =
     (Program True [] [])\<lparr>operations := [0, 1, 2, 3],
        heap := [mk_op ''f'' [] [], mk_op ''out'' [''a''] [], mk_op ''pass'' [] [],
                 mk_op ''out'' [''b''] [], mk_op ''out'' [''x''] [], mk_op ''section'' [''inner''] []],
        functions_tab := [(''mem'', []), (''f'', [4, 5])],
        sections := [(''top'', 1), (''done'', 3)]\<rparr>"

text \<open>The state after the call at step 0 of \<open>splice_example\<close>.\<close>

definition spliced_example :: program where
  "spliced_example =
     splice_example\<lparr>
        states := [\<lparr>entry_point = 0, vars = variables splice_example\<rparr>],
        operations := [0, 4, 6, 1, 2, 3],
        sections := [(''top'', 1), (''done'', 5), (''inner'', 2)],
        runed_functions := [0],
        heap := [mk_op ''f'' [] [], mk_op ''out'' [''a''] [], mk_op ''pass'' [] [],
                 mk_op ''out'' [''b''] [], (mk_op ''out'' [''x''] [])\<lparr>index := Some 0\<rparr>,
                 (mk_op ''section'' [''inner''] [])\<lparr>index := Some 0\<rparr>, parse_single ''popstate'']\<rparr>"

text \<open>
  A program that calls \<open>f\<close>, whose body calls \<open>g\<close>, declares the label \<open>L\<close> and prints
  \<open>x\<close>; the body of \<open>g\<close> prints \<open>y\<close>. \<open>sync_called\<close> is the state after the first step
  (the call of \<open>f\<close>) and \<open>sync_nested\<close> the state after the second (the call of \<open>g\<close>).
\<close>

definition sync_example :: program where
  "sync_example =
     (Program True [] [])\<lparr>operations := [0],
        heap := [mk_op ''f'' [] [], mk_op ''g'' [] [], mk_op ''section'' [''L''] [],
                 mk_op ''out'' [''x''] [], mk_op ''out'' [''y''] []],
        functions_tab := [(''mem'', []), (''f'', [1, 2, 3]), (''g'', [4])]\<rparr>"

definition sync_called :: program where
  "sync_called = outcome_state (start_step idle_handlers literal_evaluator sync_example)"

definition sync_nested :: program where
  "sync_nested = outcome_state (start_step idle_handlers literal_evaluator sync_called)"





text \<open>
  The namespaces \<open>a\<close> and \<open>b\<close> are used, in this order, and both declare \<open>f\<close>; in
  \<open>precedence_example\<close> the namespace \<open>m\<close> is open and declares \<open>f\<close> too, as does the
  global scope.
\<close>

definition namespace_example :: program where
  "namespace_example =
     (Program True [] [])\<lparr>operations := [0],
        heap := [mk_op ''f'' [] [], mk_op ''out'' [''a''] [], mk_op ''out'' [''b''] []],
        functions_tab := [(''mem'', []), (''a.f'', [1]), (''b.f'', [2])],
        used_namespaces := [''a'', ''b'']\<rparr>"

definition precedence_example :: program where
  "precedence_example =
     namespace_example\<lparr>current_namespace := ''m.'',
        functions_tab := [(''mem'', []), (''m.f'', [0]), (''a.f'', [1]), (''f'', [2])]\<rparr>"

text \<open>A program whose only operation is neither a command nor a declared function.\<close>

definition undefined_example :: program where
  "undefined_example =
     (Program True [] [])\<lparr>operations := [0], heap := [mk_op ''nothing'' [] []]\<rparr>"

text \<open>
  Two labels outside and one inside a function definition, before and after the first
  loop of \<open>start\<close>.
\<close>

definition link_example :: program where
  "link_example =
     (Program True [] [])\<lparr>operations := [0, 1, 2, 3, 4, 5],
        heap := [mk_op ''section'' [''start''] [], mk_op ''out'' [''a''] [], mk_op ''func'' [''f''] [],
                 mk_op ''section'' [''inner''] [], mk_op ''endfunc'' [] [],
                 mk_op ''section'' [''done''] []]\<rparr>"

definition linked_example :: program where
  "linked_example =
     link_example\<lparr>operations := [6, 1, 2, 3, 4, 7],
        sections := [(''start'', 1), (''done'', 6)],
        heap := [(mk_op ''section'' [''start''] [])\<lparr>index := Some 0\<rparr>,
                 (mk_op ''out'' [''a''] [])\<lparr>index := Some 0\<rparr>,
                 (mk_op ''func'' [''f''] [])\<lparr>index := Some 0\<rparr>,
                 (mk_op ''section'' [''inner''] [])\<lparr>index := Some 0\<rparr>,
                 (mk_op ''endfunc'' [] [])\<lparr>index := Some 0\<rparr>,
                 (mk_op ''section'' [''done''] [])\<lparr>index := Some 0\<rparr>,
                 parse_single ''pass'', parse_single ''pass'']\<rparr>"

section \<open>Properties\<close>

subsection \<open>The object store and the loop of \<open>exec_func\<close>\<close>

lemma same_code_refl [simp]: "same_code h h"
  by (simp add: same_code_def)

lemma same_code_trans: "same_code h h' \<Longrightarrow> same_code h' h'' \<Longrightarrow> same_code h h''"
  by (simp add: same_code_def)

lemma same_code_stamp: "same_code (heap st) (heap (set_operation_index st b))"
proof -
  have "command (((heap st)[b := (heap st ! b)\<lparr>index := Some c\<rparr>]) ! a) = command (heap st ! a)
      \<and> args (((heap st)[b := (heap st ! b)\<lparr>index := Some c\<rparr>]) ! a) = args (heap st ! a)" for a c
    by (cases "a = b"; cases "b < length (heap st)") (simp_all add: list_update_beyond)
  then show ?thesis by (simp add: same_code_def set_operation_index_def)
qed

lemma inserted_ops_cong: "same_code h h' \<Longrightarrow> inserted_ops h' f as = inserted_ops h f as"
  by (induction as arbitrary: f) (simp_all add: same_code_def)

lemma declared_sections_cong: "same_code h h' \<Longrightarrow> declared_sections h' f as = declared_sections h f as"
  by (induction as arbitrary: f) (simp_all add: same_code_def split: list.splits)

lemma stamp_fields [simp]:
  "operations (set_operation_index st a) = operations st"
  "sections (set_operation_index st a) = sections st"
  "states (set_operation_index st a) = states st"
  "current_step (set_operation_index st a) = current_step st"
  "runed_functions (set_operation_index st a) = runed_functions st"
  "length (heap (set_operation_index st a)) = length (heap st)"
  by (simp_all add: set_operation_index_def)

lemma py_insert_in_range:
  "0 \<le> i \<Longrightarrow> i \<le> int (length xs) \<Longrightarrow> py_insert xs i x = take (nat i) xs @ x # drop (nat i) xs"
  by (simp add: py_insert_def Let_def min_def)

lemma map_of_shift:
  "map_of (map (\<lambda>(k, v). (k, if v > (p::int) then v + 1 else v)) al) n
     = map_option (\<lambda>v. if v > p then v + 1 else v) (map_of al n)"
  by (simp add: map_of_map)

lemma exec_func_loop_section:
  assumes "command (heap st ! a) = ''section''" and "\<not> f" and "args (heap st ! a) = nm # others"
  shows "exec_func_loop (a # body) i f st =
           exec_func_loop body i f
             ((set_operation_index st a)\<lparr>sections := AList.update nm (i + 1) (sections st)\<rparr>)"
proof -
  have "command (heap (set_operation_index st a) ! a) = command (heap st ! a)"
       "args (heap (set_operation_index st a) ! a) = args (heap st ! a)"
    using same_code_stamp [of st a] by (simp_all add: same_code_def)
  then show ?thesis using assms by (simp add: Let_def)
qed

lemma exec_func_loop_section_noargs:
  assumes "command (heap st ! a) = ''section''" and "\<not> f" and "args (heap st ! a) = []"
  shows "exec_func_loop (a # body) i f st = Inl (index_error, set_operation_index st a)"
proof -
  have "command (heap (set_operation_index st a) ! a) = command (heap st ! a)"
       "args (heap (set_operation_index st a) ! a) = args (heap st ! a)"
    using same_code_stamp [of st a] by (simp_all add: same_code_def)
  then show ?thesis using assms by (simp add: Let_def)
qed

lemma exec_func_loop_insert:
  assumes "\<not> (command (heap st ! a) = ''section'' \<and> \<not> f)"
  shows "exec_func_loop (a # body) i f st =
           exec_func_loop body (i + 1) (next_in_func (command (heap st ! a)) f)
             (update_section_indexes
                ((set_operation_index st a)\<lparr>operations := py_insert (operations st) (i + 1) a\<rparr>) (i + 1))"
proof -
  have "command (heap (set_operation_index st a) ! a) = command (heap st ! a)"
    using same_code_stamp [of st a] by (simp add: same_code_def)
  then show ?thesis using assms by (auto simp: Let_def next_in_func_def)
qed

declare exec_func_loop.simps(2) [simp del]

lemma take_Suc_inserted:
  "n \<le> length xs \<Longrightarrow> take (Suc n) (take n xs @ a # drop n xs) = take n xs @ [a]"
  by (simp add: min_def)

lemma drop_Suc_inserted:
  "n \<le> length xs \<Longrightarrow> drop (Suc n) (take n xs @ a # drop n xs) = drop n xs"
  by (simp add: min_def)

lemma exec_func_loop_spec:
  assumes "exec_func_loop body i f st = Inr (i', st')" and "0 \<le> i" and "i < int (length (operations st))"
  shows "i' = i + int (length (inserted_ops (heap st) f body))
       \<and> operations st' = take (nat (i + 1)) (operations st) @ inserted_ops (heap st) f body
                              @ drop (nat (i + 1)) (operations st)
       \<and> same_code (heap st) (heap st') \<and> length (heap st') = length (heap st)
       \<and> (\<forall>n v. n \<notin> set (declared_sections (heap st) f body) \<longrightarrow> map_of (sections st) n = Some v \<longrightarrow>
             map_of (sections st') n = Some (if v > i + 1 then v + (i' - i) else v))"
  using assms
proof (induction body arbitrary: i f st)
  case Nil
  then show ?case by simp
next
  case (Cons a body)
  have sc1: "same_code (heap st) (heap (set_operation_index st a))" by (rule same_code_stamp)
  show ?case
  proof (cases "command (heap st ! a) = ''section'' \<and> \<not> f")
    case True
    then obtain nm rest where ar: "args (heap st ! a) = nm # rest"
      using Cons.prems(1) exec_func_loop_section_noargs [of st a f body i]
      by (cases "args (heap st ! a)") simp_all
    define st2 where "st2 = (set_operation_index st a)\<lparr>sections := AList.update nm (i + 1) (sections st)\<rparr>"
    have run: "exec_func_loop body i f st2 = Inr (i', st')"
      using Cons.prems(1) True ar exec_func_loop_section [of st a f nm rest body i]
      by (simp add: st2_def)
    have f2: "operations st2 = operations st" "heap st2 = heap (set_operation_index st a)"
             "sections st2 = AList.update nm (i + 1) (sections st)"
      by (simp_all add: st2_def)
    have i2: "i < int (length (operations st2))" using Cons.prems(3) by (simp add: f2)
    note IH = Cons.IH [OF run Cons.prems(2) i2]
    note IH1 = IH [THEN conjunct1]
    note IH2 = IH [THEN conjunct2, THEN conjunct1]
    note IH3 = IH [THEN conjunct2, THEN conjunct2, THEN conjunct1]
    note IH4 = IH [THEN conjunct2, THEN conjunct2, THEN conjunct2, THEN conjunct1]
    note IH5 = IH [THEN conjunct2, THEN conjunct2, THEN conjunct2, THEN conjunct2, rule_format]
    have sc2: "same_code (heap st) (heap st2)" using sc1 by (simp add: f2)
    have ins: "inserted_ops (heap st2) f body = inserted_ops (heap st) f body"
      using sc2 by (rule inserted_ops_cong)
    have dec: "declared_sections (heap st2) f body = declared_sections (heap st) f body"
      using sc2 by (rule declared_sections_cong)
    have sc: "same_code (heap st) (heap st')"
      by (rule same_code_trans [OF sc2 IH3])
    have len: "length (heap st') = length (heap st)"
      using IH4 by (simp add: f2)
    have secs: "\<forall>n v. n \<notin> set (declared_sections (heap st) f (a # body)) \<longrightarrow> map_of (sections st) n = Some v \<longrightarrow>
             map_of (sections st') n = Some (if v > i + 1 then v + (i' - i) else v)"
    proof (intro allI impI)
      fix n v assume n: "n \<notin> set (declared_sections (heap st) f (a # body))" and v: "map_of (sections st) n = Some v"
      from n True ar have ne: "n \<noteq> nm" and nb: "n \<notin> set (declared_sections (heap st) f body)" by auto
      have v2: "map_of (sections st2) n = Some v" using ne v by (simp add: f2 update_conv')
      have nb2: "n \<notin> set (declared_sections (heap st2) f body)" unfolding dec by (rule nb)
      show "map_of (sections st') n = Some (if v > i + 1 then v + (i' - i) else v)"
        by (rule IH5 [OF nb2 v2])
    qed
    have insc: "inserted_ops (heap st) f (a # body) = inserted_ops (heap st2) f body"
      using True ins by simp
    have i'eq: "i' = i + int (length (inserted_ops (heap st) f (a # body)))"
      unfolding insc by (rule IH1)
    have opsf: "operations st' = take (nat (i + 1)) (operations st) @ inserted_ops (heap st) f (a # body)
                              @ drop (nat (i + 1)) (operations st)"
      unfolding insc using IH2 [unfolded f2(1)] .
    show ?thesis by (intro conjI) (rule i'eq opsf sc len secs)+
  next
    case False
    define f' where "f' = next_in_func (command (heap st ! a)) f"
    define st3 where "st3 = update_section_indexes
                ((set_operation_index st a)\<lparr>operations := py_insert (operations st) (i + 1) a\<rparr>) (i + 1)"
    have run: "exec_func_loop body (i + 1) f' st3 = Inr (i', st')"
      using Cons.prems(1) exec_func_loop_insert [OF False, of body i] by (simp add: st3_def f'_def)
    have h3: "heap st3 = heap (set_operation_index st a)"
      by (simp add: st3_def update_section_indexes_def)
    have ops3: "operations st3 = take (nat (i + 1)) (operations st) @ a # drop (nat (i + 1)) (operations st)"
      using Cons.prems(2,3) by (simp add: st3_def update_section_indexes_def py_insert_in_range)
    have sec3: "sections st3 = map (\<lambda>(k, v). (k, if v > i + 1 then v + 1 else v)) (sections st)"
      by (simp add: st3_def update_section_indexes_def)
    have len3: "i + 1 < int (length (operations st3))"
      using Cons.prems(2,3) by (simp add: ops3)
    have i1: "0 \<le> i + 1" using Cons.prems(2) by simp
    note IH = Cons.IH [OF run i1 len3]
    note IH1 = IH [THEN conjunct1]
    note IH2 = IH [THEN conjunct2, THEN conjunct1]
    note IH3 = IH [THEN conjunct2, THEN conjunct2, THEN conjunct1]
    note IH4 = IH [THEN conjunct2, THEN conjunct2, THEN conjunct2, THEN conjunct1]
    note IH5 = IH [THEN conjunct2, THEN conjunct2, THEN conjunct2, THEN conjunct2, rule_format]
    have sc3: "same_code (heap st) (heap st3)" using sc1 by (simp add: h3)
    have ins: "inserted_ops (heap st3) f' body = inserted_ops (heap st) f' body"
      using sc3 by (rule inserted_ops_cong)
    have dec: "declared_sections (heap st3) f' body = declared_sections (heap st) f' body"
      using sc3 by (rule declared_sections_cong)
    have insc: "inserted_ops (heap st) f (a # body) = a # inserted_ops (heap st) f' body"
      using False by (auto simp: f'_def next_in_func_def)
    have decc: "declared_sections (heap st) f (a # body) = declared_sections (heap st) f' body"
      using False by (auto simp: f'_def next_in_func_def)
    have sc: "same_code (heap st) (heap st')"
      by (rule same_code_trans [OF sc3 IH3])
    have len: "length (heap st') = length (heap st)"
      using IH4 by (simp add: h3)
    have n1: "nat (i + 1 + 1) = Suc (nat (i + 1))" using Cons.prems(2) by simp
    have le: "nat (i + 1) \<le> length (operations st)" using Cons.prems(2,3) by simp
    have tk: "take (nat (i + 1 + 1)) (operations st3) = take (nat (i + 1)) (operations st) @ [a]"
      unfolding ops3 n1 using le by (rule take_Suc_inserted)
    have dr: "drop (nat (i + 1 + 1)) (operations st3) = drop (nat (i + 1)) (operations st)"
      unfolding ops3 n1 using le by (rule drop_Suc_inserted)
    have A: "operations st' = take (nat (i + 1 + 1)) (operations st3) @ inserted_ops (heap st3) f' body
                              @ drop (nat (i + 1 + 1)) (operations st3)"
      by (rule IH2)
    have opsf: "operations st' = take (nat (i + 1)) (operations st) @ inserted_ops (heap st) f (a # body)
                              @ drop (nat (i + 1)) (operations st)"
      unfolding insc using A [unfolded tk dr ins] by simp
    have B: "i' = i + 1 + int (length (inserted_ops (heap st3) f' body))"
      by (rule IH1)
    have i'eq: "i' = i + int (length (inserted_ops (heap st) f (a # body)))"
      unfolding insc using B [unfolded ins] by simp
    have secs: "\<forall>n v. n \<notin> set (declared_sections (heap st) f (a # body)) \<longrightarrow> map_of (sections st) n = Some v \<longrightarrow>
             map_of (sections st') n = Some (if v > i + 1 then v + (i' - i) else v)"
    proof (intro allI impI)
      fix n v assume n: "n \<notin> set (declared_sections (heap st) f (a # body))" and v: "map_of (sections st) n = Some v"
      have nb: "n \<notin> set (declared_sections (heap st3) f' body)"
        unfolding dec using n [unfolded decc] .
      have s3: "map_of (sections st3) n = Some (if v > i + 1 then v + 1 else v)"
        using v by (simp add: sec3 map_of_shift)
      have "map_of (sections st') n = Some (if (if v > i + 1 then v + 1 else v) > i + 1 + 1
               then (if v > i + 1 then v + 1 else v) + (i' - (i + 1)) else (if v > i + 1 then v + 1 else v))"
        by (rule IH5 [OF nb s3])
      then show "map_of (sections st') n = Some (if v > i + 1 then v + (i' - i) else v)"
        by (simp split: if_splits)
    qed
    show ?thesis by (intro conjI) (rule i'eq opsf sc len secs)+
  qed
qed

subsection \<open>Splicing and the section table\<close>

lemma nth_append3:
  assumes "length A \<le> m"
  shows "(A @ M @ B) ! (m + length M) = B ! (m - length A)"
proof -
  have b: "\<not> m + length M < length A" using assms by simp
  have c: "\<not> m + length M - length A < length M" using assms by simp
  have d: "m + length M - length A - length M = m - length A" using assms by simp
  show ?thesis unfolding nth_append using b c d by simp
qed

lemma nth_spliced:
  assumes "n \<le> length xs" and "n \<le> m" and "m < length xs"
  shows "(take n xs @ M @ drop n xs) ! (m + length M) = xs ! m"
proof -
  have a: "length (take n xs) = n" using assms by simp
  have "(take n xs @ M @ drop n xs) ! (m + length M) = drop n xs ! (m - length (take n xs))"
    using assms a by (intro nth_append3) simp
  also have "\<dots> = xs ! m" using assms by simp
  finally show ?thesis .
qed

lemma py_nth_spliced:
  assumes "0 \<le> p" and "p \<le> int (length xs)" and "p \<le> v"
  shows "py_nth (take (nat p) xs @ M @ drop (nat p) xs) (v + int (length M)) = py_nth xs v"
proof (cases "v < int (length xs)")
  case True
  have n: "nat (v + int (length M)) = nat v + length M" using assms by (simp add: nat_add_distrib)
  have "(take (nat p) xs @ M @ drop (nat p) xs) ! (nat v + length M) = xs ! nat v"
    using assms True by (intro nth_spliced) simp_all
  then show ?thesis using assms True by (simp add: py_nth_def Let_def n)
next
  case False
  then show ?thesis using assms by (simp add: py_nth_def Let_def)
qed

lemma insert_popstate_fields:
  "operations (insert_popstate st i) = py_insert (operations st) (i + 1) (length (heap st))"
  "sections (insert_popstate st i) = map (\<lambda>(k, v). (k, if v > i + 1 then v + 1 else v)) (sections st)"
  "heap (insert_popstate st i) = heap st @ [parse_single ''popstate'']"
  "states (insert_popstate st i) = states st"
  "current_step (insert_popstate st i) = current_step st"
  "runed_functions (insert_popstate st i) = runed_functions st"
  by (simp_all add: insert_popstate_def new_op_def update_section_indexes_def)

lemma exec_func_spec:
  assumes ex: "exec_func st func_body with_state = Returned st'"
    and c0: "0 \<le> current_step st" and c1: "current_step st < int (length (operations st))"
    and g: "\<not> (with_state \<and> current_step st \<in> set (runed_functions st))"
  shows "operations st' = take (nat (current_step st + 1)) (operations st)
             @ (inserted_ops (heap st) False func_body @ (if with_state then [length (heap st)] else []))
             @ drop (nat (current_step st + 1)) (operations st)"
    and "n \<notin> set (declared_sections (heap st) False func_body) \<Longrightarrow> map_of (sections st) n = Some v \<Longrightarrow>
           map_of (sections st') n =
             Some (if v > current_step st + 1
                   then v + (int (length (inserted_ops (heap st) False func_body)) + (if with_state then 1 else 0))
                   else v)"
proof -
  define st2 where "st2 = (if with_state
       then (push_state st)\<lparr>runed_functions := runed_functions (push_state st) @ [current_step (push_state st)]\<rparr>
       else st)"
  have f2: "operations st2 = operations st" "heap st2 = heap st" "sections st2 = sections st"
           "current_step st2 = current_step st"
    by (simp_all add: st2_def push_state_def)
  obtain i st3 where loop: "exec_func_loop func_body (current_step st) False st2 = Inr (i, st3)"
    and fin: "st' = (if with_state then insert_popstate st3 i else st3)"
    using ex g by (auto simp: exec_func_def Let_def st2_def push_state_def split: sum.splits if_splits)
  have c2: "current_step st < int (length (operations st2))" using c1 by (simp add: f2)
  note L = exec_func_loop_spec [OF loop c0 c2, unfolded f2]
  note L1 = L [THEN conjunct1]
  note L2 = L [THEN conjunct2, THEN conjunct1]
  note L4 = L [THEN conjunct2, THEN conjunct2, THEN conjunct2, THEN conjunct1]
  note L5 = L [THEN conjunct2, THEN conjunct2, THEN conjunct2, THEN conjunct2, rule_format]
  define ins where "ins = inserted_ops (heap st) False func_body"
  define A where "A = take (nat (current_step st + 1)) (operations st)"
  define B where "B = drop (nat (current_step st + 1)) (operations st)"
  have lenA: "int (length A) = current_step st + 1" using c0 c1 by (simp add: A_def)
  have ops3: "operations st3 = A @ ins @ B" using L2 by (simp add: A_def B_def ins_def)
  have i_eq: "i = current_step st + int (length ins)" using L1 by (simp add: ins_def)
  have pi: "py_insert (A @ ins @ B) (i + 1) x = A @ (ins @ [x]) @ B" for x
  proof -
    have r: "0 \<le> i + 1" "i + 1 \<le> int (length (A @ ins @ B))" using c0 i_eq lenA by simp_all
    have n: "nat (i + 1) = length A + length ins" using i_eq lenA by simp
    show ?thesis by (simp add: py_insert_in_range [OF r] n)
  qed
  show "operations st' = take (nat (current_step st + 1)) (operations st)
             @ (inserted_ops (heap st) False func_body @ (if with_state then [length (heap st)] else []))
             @ drop (nat (current_step st + 1)) (operations st)"
    unfolding A_def [symmetric] B_def [symmetric] ins_def [symmetric]
    using fin ops3 pi L4 by (simp add: insert_popstate_fields)
  assume n: "n \<notin> set (declared_sections (heap st) False func_body)" and v: "map_of (sections st) n = Some v"
  have s3: "map_of (sections st3) n = Some (if v > current_step st + 1 then v + (i - current_step st) else v)"
    by (rule L5 [OF n v])
  show "map_of (sections st') n =
             Some (if v > current_step st + 1
                   then v + (int (length (inserted_ops (heap st) False func_body)) + (if with_state then 1 else 0))
                   else v)"
    unfolding ins_def [symmetric]
    using fin s3 i_eq by (simp add: insert_popstate_fields map_of_shift)
qed


text \<open>
  What a call of \<open>exec_func\<close> that splices does to the section table (the program
  counter is a position of the operation list, and the re-entrancy guard does not skip
  the call). It inserts \<open>k\<close> operations at the list position \<open>p\<close>, one behind the program
  counter: the operations of the body that are not label declarations and, with
  \<open>with_state\<close>, the \<open>popstate\<close> marker. For every label that the section table held
  before and that the body does not declare again: an entry greater than \<open>p\<close> has grown
  by exactly \<open>k\<close> and addresses the same operation as before, and an entry less than or
  equal to \<open>p\<close> is unchanged. The entry that is equal to \<open>p\<close> is among the unchanged
  ones, although the operation that stood at \<open>p\<close> now stands at \<open>p + k\<close>.
\<close>

lemma splice_index_shift:
  assumes "exec_func st func_body with_state = Returned st'"
    and "0 \<le> current_step st" and "current_step st < int (length (operations st))"
    and "\<not> (with_state \<and> current_step st \<in> set (runed_functions st))"
    and "map_of (sections st) name = Some v"
    and "name \<notin> set (declared_sections (heap st) False func_body)"
    and "p = current_step st + 1"
    and "spliced = inserted_ops (heap st) False func_body @ (if with_state then [length (heap st)] else [])"
    and "k = int (length spliced)"
  shows "operations st' = take (nat p) (operations st) @ spliced @ drop (nat p) (operations st)
       \<and> (p < v \<longrightarrow> map_of (sections st') name = Some (v + k)
                    \<and> py_nth (operations st') (v + k) = py_nth (operations st) v)
       \<and> (v \<le> p \<longrightarrow> map_of (sections st') name = Some v)"
proof -
  note ops = exec_func_spec(1) [OF assms(1-4)]
  note sec = exec_func_spec(2) [OF assms(1-4) assms(6) assms(5)]
  have o: "operations st' = take (nat p) (operations st) @ spliced @ drop (nat p) (operations st)"
    using ops by (simp add: assms(7,8))
  have kk: "k = int (length (inserted_ops (heap st) False func_body)) + (if with_state then 1 else 0)"
    by (simp add: assms(8,9))
  have s: "map_of (sections st') name = Some (if p < v then v + k else v)"
    using sec by (simp add: assms(7) kk)
  have n: "p < v \<longrightarrow> py_nth (operations st') (v + k) = py_nth (operations st) v"
  proof
    assume "p < v"
    then have "py_nth (take (nat p) (operations st) @ spliced @ drop (nat p) (operations st)) (v + int (length spliced))
        = py_nth (operations st) v"
      using assms(2,3,7) by (intro py_nth_spliced) simp_all
    then show "py_nth (operations st') (v + k) = py_nth (operations st) v"
      by (simp add: o assms(9))
  qed
  show ?thesis using o s n by simp
qed

lemma splice_index_shift_example:
  "exec_func splice_example [4, 5] True =
      Returned (splice_example\<lparr>
        states := [\<lparr>entry_point = 0, vars = variables splice_example\<rparr>],
        operations := [0, 4, 6, 1, 2, 3],
        sections := [(''top'', 1), (''done'', 5), (''inner'', 2)],
        runed_functions := [0],
        heap := [mk_op ''f'' [] [], mk_op ''out'' [''a''] [], mk_op ''pass'' [] [],
                 mk_op ''out'' [''b''] [], (mk_op ''out'' [''x''] [])\<lparr>index := Some 0\<rparr>,
                 (mk_op ''section'' [''inner''] [])\<lparr>index := Some 0\<rparr>, parse_single ''popstate'']\<rparr>)
   \<and> 0 \<le> current_step splice_example
   \<and> current_step splice_example < int (length (operations splice_example))
   \<and> \<not> (True \<and> current_step splice_example \<in> set (runed_functions splice_example))
   \<and> map_of (sections splice_example) ''done'' = Some 3
   \<and> ''done'' \<notin> set (declared_sections (heap splice_example) False [4, 5])
   \<and> inserted_ops (heap splice_example) False [4, 5] @ [length (heap splice_example)] = [4, 6]
   \<and> map_of (sections (outcome_state (exec_func splice_example [4, 5] True))) ''done'' = Some 5
   \<and> py_nth (operations (outcome_state (exec_func splice_example [4, 5] True))) 5
        = py_nth (operations splice_example) 3"
proof -
  have e: "exec_func splice_example [4, 5] True =
      Returned (splice_example\<lparr>
        states := [\<lparr>entry_point = 0, vars = variables splice_example\<rparr>],
        operations := [0, 4, 6, 1, 2, 3],
        sections := [(''top'', 1), (''done'', 5), (''inner'', 2)],
        runed_functions := [0],
        heap := [mk_op ''f'' [] [], mk_op ''out'' [''a''] [], mk_op ''pass'' [] [],
                 mk_op ''out'' [''b''] [], (mk_op ''out'' [''x''] [])\<lparr>index := Some 0\<rparr>,
                 (mk_op ''section'' [''inner''] [])\<lparr>index := Some 0\<rparr>, parse_single ''popstate'']\<rparr>)"
    by (simp add: exec_func_def push_state_def Let_def set_operation_index_def exec_func_loop.simps
        update_section_indexes_def py_insert_def insert_popstate_def new_op_def
        splice_example_def Program_def set_var_def mk_op_def)
  have h: "0 \<le> current_step splice_example"
      "current_step splice_example < int (length (operations splice_example))"
      "\<not> (True \<and> current_step splice_example \<in> set (runed_functions splice_example))"
      "map_of (sections splice_example) ''done'' = Some 3"
      "''done'' \<notin> set (declared_sections (heap splice_example) False [4, 5])"
      "inserted_ops (heap splice_example) False [4, 5] @ [length (heap splice_example)] = [4, 6]"
    by (simp_all add: splice_example_def Program_def set_var_def mk_op_def)
  have p: "(1::int) = current_step splice_example + 1"
    by (simp add: splice_example_def Program_def set_var_def)
  have s: "[4, 6] = inserted_ops (heap splice_example) False [4, 5] @ (if True then [length (heap splice_example)] else [])"
    using h(6) by simp
  have k: "(2::int) = int (length [4::nat, 6])" by simp
  note t = splice_index_shift [OF e h(1) h(2) h(3) h(4) h(5) p s k]
  have X: "map_of (sections (outcome_state (exec_func splice_example [4, 5] True))) ''done'' = Some 5"
    unfolding e outcome_state.simps using t by simp
  have Y: "py_nth (operations (outcome_state (exec_func splice_example [4, 5] True))) 5
        = py_nth (operations splice_example) 3"
    unfolding e outcome_state.simps using t
    by (simp add: py_nth_def splice_example_def Program_def set_var_def)
  show ?thesis by (intro conjI) (rule e h X Y)+
qed

lemmas sync_run_defs = start_step_def run_def run_command_def run_call_def lookup_func_def
      exec_func_def push_state_def insert_popstate_def new_op_def update_section_indexes_def
      exec_func_loop.simps set_operation_index_def py_nth_def py_insert_def
      builtin_commands_def literal_evaluator_def parse_single_def mk_op_def Let_def

lemma sync_called_state:
  "sync_called = sync_example\<lparr>
     states := [\<lparr>entry_point = 0, vars = variables sync_example\<rparr>],
     operations := [0, 1, 3, 5], sections := [(''L'', 2)], runed_functions := [0],
     mem := VStr [],
     heap := [(mk_op ''f'' [] [])\<lparr>index := Some 0\<rparr>, (mk_op ''g'' [] [])\<lparr>index := Some 0\<rparr>,
              (mk_op ''section'' [''L''] [])\<lparr>index := Some 0\<rparr>,
              (mk_op ''out'' [''x''] [])\<lparr>index := Some 0\<rparr>, mk_op ''out'' [''y''] [],
              parse_single ''popstate''],
     current_step := 1\<rparr>"
  by (simp add: sync_called_def sync_example_def Program_def set_var_def sync_run_defs)

lemma sync_nested_state:
  "sync_nested = sync_example\<lparr>
     states := [\<lparr>entry_point = 0, vars = variables sync_example\<rparr>,
                \<lparr>entry_point = 1, vars = variables sync_example\<rparr>],
     operations := [0, 1, 4, 6, 3, 5], sections := [(''L'', 2)], runed_functions := [0, 1],
     mem := VStr [],
     heap := [(mk_op ''f'' [] [])\<lparr>index := Some 0\<rparr>, (mk_op ''g'' [] [])\<lparr>index := Some 1\<rparr>,
              (mk_op ''section'' [''L''] [])\<lparr>index := Some 0\<rparr>,
              (mk_op ''out'' [''x''] [])\<lparr>index := Some 0\<rparr>,
              (mk_op ''out'' [''y''] [])\<lparr>index := Some 1\<rparr>,
              parse_single ''popstate'', parse_single ''popstate''],
     current_step := 2\<rparr>"
  unfolding sync_nested_def sync_called_state
  by (simp add: sync_example_def Program_def set_var_def sync_run_defs)

text \<open>
  Claim C1 does not hold of the code. In \<open>sync_example\<close> the call of \<open>f\<close> at step 0
  splices the body of \<open>f\<close> and records the label \<open>L\<close> with the index 2, the position of
  the operation \<open>out x\<close> that follows the label. The call of \<open>g\<close> at step 1 then inserts
  two operations behind position 1, the \<open>out y\<close> of \<open>g\<close> and the \<open>popstate\<close> marker, so
  \<open>out x\<close> moves from position 2 to position 4. \<open>update_section_indexes\<close> is given the
  index of the insertion, 2, and shifts the entries that are greater: the entry of \<open>L\<close>
  lies beyond the program counter, is not among them, and addresses the \<open>out y\<close> of \<open>g\<close>
  afterwards.
\<close>

theorem section_entry_out_of_sync:
  "start_step idle_handlers literal_evaluator sync_example = Returned sync_called
   \<and> current_step sync_called = 1
   \<and> operations sync_called = [0, 1, 3, 5]
   \<and> map_of (sections sync_called) ''L'' = Some 2
   \<and> py_nth (operations sync_called) 2 = Some 3
   \<and> command (heap sync_called ! 3) = ''out'' \<and> args (heap sync_called ! 3) = [''x'']
   \<and> start_step idle_handlers literal_evaluator sync_called = Returned sync_nested
   \<and> operations sync_nested = [0, 1, 4, 6, 3, 5]
   \<and> map_of (sections sync_nested) ''L'' = Some 2
   \<and> py_nth (operations sync_nested) 2 = Some 4
   \<and> command (heap sync_nested ! 4) = ''out'' \<and> args (heap sync_nested ! 4) = [''y'']
   \<and> py_nth (operations sync_nested) (2 + 2) = Some 3"
proof -
  have a: "start_step idle_handlers literal_evaluator sync_example = Returned sync_called"
    by (simp add: sync_called_def sync_example_def Program_def set_var_def sync_run_defs)
  have b: "current_step sync_called = 1" "operations sync_called = [0, 1, 3, 5]"
    "map_of (sections sync_called) ''L'' = Some 2" "py_nth (operations sync_called) 2 = Some 3"
    "command (heap sync_called ! 3) = ''out''" "args (heap sync_called ! 3) = [''x'']"
    unfolding sync_called_state by (simp_all add: py_nth_def mk_op_def)
  have c: "start_step idle_handlers literal_evaluator sync_called = Returned sync_nested"
    unfolding sync_nested_def sync_called_state
    by (simp add: sync_example_def Program_def set_var_def sync_run_defs)
  have d: "operations sync_nested = [0, 1, 4, 6, 3, 5]"
    "map_of (sections sync_nested) ''L'' = Some 2" "py_nth (operations sync_nested) 2 = Some 4"
    "command (heap sync_nested ! 4) = ''out''" "args (heap sync_nested ! 4) = [''y'']"
    "py_nth (operations sync_nested) (2 + 2) = Some 3"
    unfolding sync_nested_state by (simp_all add: py_nth_def mk_op_def)
  show ?thesis by (intro conjI) (rule a b c d)+
qed

lemma command_stamp [simp]: "command (heap (set_operation_index st b) ! a) = command (heap st ! a)"
  using same_code_stamp [of st b] by (simp add: same_code_def)

lemma args_stamp [simp]: "args (heap (set_operation_index st b) ! a) = args (heap st ! a)"
  using same_code_stamp [of st b] by (simp add: same_code_def)

lemma lookup_func_stamp [simp]: "lookup_func (set_operation_index st a) n = lookup_func st n"
  by (simp add: lookup_func_def set_operation_index_def Let_def split: option.splits)

lemma run_is_run_call:
  assumes "not_a_command (command (heap st ! a))" and "not_recording st"
  shows "run hs ev st a = run_call ev (set_operation_index st a) a"
proof -
  have r: "not_recording (set_operation_index st a)"
    using assms(2) by (simp add: not_recording_def set_operation_index_def split: option.splits)
  show ?thesis using assms(1) r
    by (simp add: run_def run_command_def Let_def not_a_command_def not_recording_def
        split: option.splits)
qed

lemma run_popstate_op:
  "command (heap st ! a) = ''popstate'' \<Longrightarrow> run hs ev st a = Returned (run_popstate (set_operation_index st a))"
  by (simp add: run_def Let_def)

subsection \<open>The mem register\<close>

text \<open>
  Claim C8. The mem register is one field: \<open>get_mem\<close> returns its value and leaves
  \<open>None\<close> behind, so a second read finds it empty; of two writes without a read in
  between only the second is read, and then nothing. The write of \<open>raise_error\<close> in an
  armed try block is such a write: whatever was pending, the next read returns the error
  payload and the one after it \<open>None\<close>.
\<close>

theorem mem_single_slot:
  "get_mem st = (mem st, st\<lparr>mem := VNone\<rparr>)
   \<and> fst (get_mem (snd (get_mem st))) = VNone
   \<and> fst (get_mem (st\<lparr>mem := w1\<rparr>\<lparr>mem := w2\<rparr>)) = w2
   \<and> fst (get_mem (snd (get_mem (st\<lparr>mem := w1\<rparr>\<lparr>mem := w2\<rparr>)))) = VNone
   \<and> (is_in_try st = Some l \<and> map_of (sections st) l = Some v \<and> index (heap st ! a) = Some i \<longrightarrow>
        (\<exists>st'. raise_error st k m a = Returned st'
            \<and> fst (get_mem st') = error_payload k m i
            \<and> fst (get_mem (snd (get_mem st'))) = VNone))"
  by (simp add: get_mem_def raise_error_def)

theorem mem_single_slot_witness:
  "is_in_try armed_example = Some ''err'' \<and> map_of (sections armed_example) ''err'' = Some 3
   \<and> index (heap armed_example ! 1) = Some 1
   \<and> mem armed_example = VStr ''pending''
   \<and> (\<exists>st'. raise_error armed_example ''RuntimeError'' ''bad'' 1 = Returned st'
          \<and> fst (get_mem st') = error_payload ''RuntimeError'' ''bad'' 1
          \<and> fst (get_mem (snd (get_mem st'))) = VNone)"
  using mem_single_slot [of armed_example "VNone" "VNone" "''err''" 3 1 1 "''RuntimeError''" "''bad''"]
  by (simp add: armed_example_def Program_def set_var_def mk_op_def)

subsection \<open>Raising errors\<close>

lemma raise_error_not_test:
  "is_in_try st = None \<Longrightarrow> \<not> is_test st \<Longrightarrow> raise_error st k m a \<noteq> Returned s"
  by (simp add: raise_error_def Let_def split: outcome.splits option.splits)

text \<open>
  Claim C4. An error raised while a try block with label \<open>l\<close> is armed, where \<open>l\<close> is in
  the section table with index \<open>v\<close> and the raising operation has been given its index
  \<open>i\<close>: \<open>raise_error\<close> returns, the try-context is cleared, the program counter is
  \<open>v - 1\<close>, and mem holds the payload with type, message and index \<open>i\<close>. When this was
  the last thing \<open>run\<close> did, the turn of the main loop ends with the program counter at
  \<open>v\<close>. A second error raised in the state reached is handled as without a try block: in
  test mode it is recorded and nothing else changes, otherwise \<open>raise_error\<close> does not
  return.
\<close>

theorem raise_error_armed:
  assumes "is_in_try st = Some l" and "map_of (sections st) l = Some v"
    and "index (heap st ! a) = Some i"
  shows "\<exists>st'. raise_error st k m a = Returned st'
           \<and> st' = st\<lparr>is_in_try := None, current_step := v - 1, mem := error_payload k m i\<rparr>
           \<and> is_in_try st' = None \<and> current_step st' + 1 = v
           \<and> mem st' = VDict [(''type'', VStr k), (''message'', VStr m), (''index'', VInt i)]
           \<and> (py_nth (operations st0) (current_step st0) = Some a0
                 \<and> run hs ev st0 a0 = raise_error st k m a \<longrightarrow>
                start_step hs ev st0 = Returned (st'\<lparr>current_step := v\<rparr>))
           \<and> (is_test st \<longrightarrow>
                raise_error st' k2 m2 a2 = Returned (st'\<lparr>runtime_error := Some (k2, m2, a2)\<rparr>))
           \<and> (\<not> is_test st \<longrightarrow> (\<forall>s. raise_error st' k2 m2 a2 \<noteq> Returned s))"
proof -
  let ?st' = "st\<lparr>is_in_try := None, current_step := v - 1, mem := error_payload k m i\<rparr>"
  have r: "raise_error st k m a = Returned ?st'"
    using assms by (simp add: raise_error_def)
  have d: "py_nth (operations st0) (current_step st0) = Some a0
                 \<and> run hs ev st0 a0 = raise_error st k m a \<longrightarrow>
                start_step hs ev st0 = Returned (?st'\<lparr>current_step := v\<rparr>)"
    by (simp add: start_step_def r)
  have t: "is_test st \<longrightarrow> raise_error ?st' k2 m2 a2 = Returned (?st'\<lparr>runtime_error := Some (k2, m2, a2)\<rparr>)"
    by (simp add: raise_error_def)
  have n: "\<not> is_test st \<longrightarrow> (\<forall>s. raise_error ?st' k2 m2 a2 \<noteq> Returned s)"
    using raise_error_not_test [of ?st'] by simp
  show ?thesis using r d t n by (simp add: error_payload_def)
qed

theorem raise_error_armed_witness:
  "is_in_try (set_operation_index armed_example 1) = Some ''err''
   \<and> map_of (sections (set_operation_index armed_example 1)) ''err'' = Some 3
   \<and> index (heap (set_operation_index armed_example 1) ! 1) = Some 1
   \<and> py_nth (operations armed_example) (current_step armed_example) = Some 1
   \<and> run idle_handlers literal_evaluator armed_example 1
       = raise_error (set_operation_index armed_example 1) ''SyntaxError'' (undefined_operation ''boom'') 1
   \<and> start_step idle_handlers literal_evaluator armed_example =
       Returned (armed_example\<lparr>is_in_try := None, current_step := 3,
          mem := VDict [(''type'', VStr ''SyntaxError''),
                        (''message'', VStr (undefined_operation ''boom'')), (''index'', VInt 1)]\<rparr>)
   \<and> raise_error (armed_example\<lparr>is_in_try := None, current_step := 2,
          mem := VDict [(''type'', VStr ''SyntaxError''),
                        (''message'', VStr (undefined_operation ''boom'')), (''index'', VInt 1)]\<rparr>)
        ''RuntimeError'' ''again'' 2
      = Returned (armed_example\<lparr>is_in_try := None, current_step := 2,
          mem := VDict [(''type'', VStr ''SyntaxError''),
                        (''message'', VStr (undefined_operation ''boom'')), (''index'', VInt 1)],
          runtime_error := Some (''RuntimeError'', ''again'', 2)\<rparr>)"
proof -
  have s: "set_operation_index armed_example 1 = armed_example"
    by (simp add: set_operation_index_def armed_example_def Program_def set_var_def mk_op_def)
  have h: "is_in_try (set_operation_index armed_example 1) = Some ''err''"
      "map_of (sections (set_operation_index armed_example 1)) ''err'' = Some 3"
      "index (heap (set_operation_index armed_example 1) ! 1) = Some 1"
    unfolding s by (simp_all add: armed_example_def Program_def set_var_def mk_op_def)
  have p: "py_nth (operations armed_example) (current_step armed_example) = Some 1"
    by (simp add: py_nth_def armed_example_def Program_def set_var_def)
  have c: "command (heap armed_example ! 1) = ''boom''"
    by (simp add: armed_example_def mk_op_def)
  have nc: "not_a_command (command (heap armed_example ! 1))"
    unfolding c by (simp add: not_a_command_def builtin_commands_def)
  have nr: "not_recording armed_example"
    by (simp add: not_recording_def armed_example_def Program_def set_var_def)
  have lk: "lookup_func armed_example ''boom'' = None"
    by (simp add: lookup_func_def armed_example_def Program_def set_var_def)
  have r: "run idle_handlers literal_evaluator armed_example 1
       = raise_error (set_operation_index armed_example 1) ''SyntaxError'' (undefined_operation ''boom'') 1"
    unfolding run_is_run_call [OF nc nr] s using c by (simp add: run_call_def Let_def lk)
  have t: "is_test (set_operation_index armed_example 1)"
    unfolding s by (simp add: armed_example_def Program_def set_var_def)
  from raise_error_armed [OF h, where ?st0.0 = armed_example and ?a0.0 = 1 and hs = idle_handlers
      and ev = literal_evaluator and k = "''SyntaxError''" and m = "undefined_operation ''boom''"
      and ?k2.0 = "''RuntimeError''" and ?m2.0 = "''again''" and ?a2.0 = 2]
  obtain st' where tt: "raise_error (set_operation_index armed_example 1) ''SyntaxError'' (undefined_operation ''boom'') 1 = Returned st'
           \<and> st' = (set_operation_index armed_example 1)\<lparr>is_in_try := None, current_step := 3 - 1,
                 mem := error_payload ''SyntaxError'' (undefined_operation ''boom'') 1\<rparr>
           \<and> is_in_try st' = None \<and> current_step st' + 1 = 3
           \<and> mem st' = VDict [(''type'', VStr ''SyntaxError''), (''message'', VStr (undefined_operation ''boom'')), (''index'', VInt 1)]
           \<and> (py_nth (operations armed_example) (current_step armed_example) = Some 1
                 \<and> run idle_handlers literal_evaluator armed_example 1
                     = raise_error (set_operation_index armed_example 1) ''SyntaxError'' (undefined_operation ''boom'') 1 \<longrightarrow>
                start_step idle_handlers literal_evaluator armed_example = Returned (st'\<lparr>current_step := 3\<rparr>))
           \<and> (is_test (set_operation_index armed_example 1) \<longrightarrow>
                raise_error st' ''RuntimeError'' ''again'' 2 = Returned (st'\<lparr>runtime_error := Some (''RuntimeError'', ''again'', 2)\<rparr>))
           \<and> (\<not> is_test (set_operation_index armed_example 1) \<longrightarrow> (\<forall>s. raise_error st' ''RuntimeError'' ''again'' 2 \<noteq> Returned s))" ..
  have eq: "st' = armed_example\<lparr>is_in_try := None, current_step := 2,
          mem := VDict [(''type'', VStr ''SyntaxError''),
                        (''message'', VStr (undefined_operation ''boom'')), (''index'', VInt 1)]\<rparr>"
    using tt [THEN conjunct2, THEN conjunct1] unfolding s by (simp add: error_payload_def)
  note rest = tt [THEN conjunct2, THEN conjunct2, THEN conjunct2, THEN conjunct2, THEN conjunct2]
  have x: "start_step idle_handlers literal_evaluator armed_example =
       Returned (armed_example\<lparr>is_in_try := None, current_step := 3,
          mem := VDict [(''type'', VStr ''SyntaxError''),
                        (''message'', VStr (undefined_operation ''boom'')), (''index'', VInt 1)]\<rparr>)"
    using rest [THEN conjunct1, THEN mp, OF conjI [OF p r]] unfolding eq by simp
  note y = rest [THEN conjunct2, THEN conjunct1, THEN mp, OF t, unfolded eq]
  show ?thesis by (intro conjI) (rule h p r x y)+
qed

text \<open>
  Claim C9. An error raised with no try block armed, in test mode: \<open>raise_error\<close> returns
  (the process goes on), the triple of type, message and operation is recorded in
  \<open>runtime_error\<close> and nothing else changes; in particular the program counter is the
  same and nothing has been printed.
\<close>

theorem raise_error_test_mode:
  assumes "is_in_try st = None" and "is_test st"
  shows "raise_error st error_type message a = Returned (st\<lparr>runtime_error := Some (error_type, message, a)\<rparr>)
       \<and> current_step (outcome_state (raise_error st error_type message a)) = current_step st
       \<and> stdout (outcome_state (raise_error st error_type message a)) = stdout st"
  using assms by (simp add: raise_error_def)

theorem raise_error_test_mode_witness:
  "is_in_try popstate_example = None \<and> is_test popstate_example
   \<and> raise_error popstate_example ''SyntaxError'' ''bad'' 0
        = Returned (popstate_example\<lparr>runtime_error := Some (''SyntaxError'', ''bad'', 0)\<rparr>)
   \<and> current_step (outcome_state (raise_error popstate_example ''SyntaxError'' ''bad'' 0)) = 0
   \<and> stdout (outcome_state (raise_error popstate_example ''SyntaxError'' ''bad'' 0)) = []"
  using raise_error_test_mode [of popstate_example "''SyntaxError''" "''bad''" 0]
  by (simp add: popstate_example_def Program_def set_var_def mk_op_def)

subsection \<open>The call stack\<close>

text \<open>
  Claim C10. A \<open>popstate\<close> operation run on an empty call stack: \<open>run\<close> returns, and the
  state is the one before but for the index that every dispatch writes on the operation
  it runs (in the object store); the turn of the main loop then adds one to the program
  counter, and the stack is still empty. Every field of the program but the program
  counter and the object store is as before.
\<close>

theorem popstate_empty_stack:
  assumes "py_nth (operations st) (current_step st) = Some a"
    and "command (heap st ! a) = ''popstate''" and "states st = []"
  shows "run hs ev st a = Returned (set_operation_index st a)
       \<and> start_step hs ev st = Returned ((set_operation_index st a)\<lparr>current_step := current_step st + 1\<rparr>)
       \<and> states (outcome_state (start_step hs ev st)) = []
       \<and> current_step (outcome_state (start_step hs ev st)) = current_step st + 1
       \<and> (outcome_state (start_step hs ev st))\<lparr>heap := heap st, current_step := current_step st\<rparr> = st"
  using assms by (simp add: start_step_def run_popstate_op run_popstate_def set_operation_index_def)

theorem popstate_empty_stack_witness:
  "py_nth (operations popstate_example) (current_step popstate_example) = Some 0
   \<and> command (heap popstate_example ! 0) = ''popstate'' \<and> states popstate_example = []
   \<and> start_step idle_handlers literal_evaluator popstate_example
        = Returned (popstate_example\<lparr>heap := [(mk_op ''popstate'' [] [])\<lparr>index := Some 0\<rparr>],
                                      current_step := 1\<rparr>)"
  using popstate_empty_stack [of popstate_example 0 idle_handlers literal_evaluator]
  by (simp add: popstate_example_def Program_def set_var_def mk_op_def py_nth_def set_operation_index_def)

subsection \<open>What a call leaves unchanged\<close>

lemma same_frame_stamp: "same_frame st (set_operation_index st a)"
  by (simp add: same_frame_def set_operation_index_def)

lemma same_frame_trans: "same_frame a b \<Longrightarrow> same_frame b c \<Longrightarrow> same_frame a c"
  by (simp add: same_frame_def)

lemma exec_func_loop_frame:
  "same_frame st (loop_state (exec_func_loop body i f st))"
proof (induction body arbitrary: i f st)
  case Nil
  show ?case by (simp add: loop_state_def same_frame_def)
next
  case (Cons a body)
  show ?case
  proof (cases "command (heap st ! a) = ''section'' \<and> \<not> f")
    case True
    show ?thesis
    proof (cases "args (heap st ! a)")
      case Nil
      have "exec_func_loop (a # body) i f st = Inl (index_error, set_operation_index st a)"
        using True Nil by (intro exec_func_loop_section_noargs) simp_all
      then show ?thesis
        using same_frame_stamp [of st a] by (simp add: loop_state_def)
    next
      case (Cons nm others)
      define st2 where "st2 = (set_operation_index st a)\<lparr>sections := AList.update nm (i + 1) (sections st)\<rparr>"
      have e: "exec_func_loop (a # body) i f st = exec_func_loop body i f st2"
        unfolding st2_def using True Cons by (intro exec_func_loop_section) simp_all
      have "same_frame st st2" by (simp add: st2_def same_frame_def set_operation_index_def)
      then show ?thesis unfolding e using Cons.IH [of st2] by (rule same_frame_trans)
    qed
  next
    case False
    define st3 where "st3 = update_section_indexes
                ((set_operation_index st a)\<lparr>operations := py_insert (operations st) (i + 1) a\<rparr>) (i + 1)"
    have e: "exec_func_loop (a # body) i f st
        = exec_func_loop body (i + 1) (next_in_func (command (heap st ! a)) f) st3"
      unfolding st3_def using False by (rule exec_func_loop_insert)
    have "same_frame st st3"
      by (simp add: st3_def same_frame_def set_operation_index_def update_section_indexes_def)
    then show ?thesis unfolding e using Cons.IH [of st3] by (rule same_frame_trans)
  qed
qed

lemma insert_popstate_variables [simp]:
  "variables (insert_popstate st i) = variables st"
  by (simp add: insert_popstate_def new_op_def update_section_indexes_def)

lemma exec_func_frame:
  "states (outcome_state (exec_func st body ws)) = (if ws then states st @ [\<lparr>entry_point = current_step st, vars = variables st\<rparr>] else states st)
   \<and> variables (outcome_state (exec_func st body ws)) = variables st
   \<and> current_step (outcome_state (exec_func st body ws)) = current_step st
   \<and> (ws \<longrightarrow> current_step st \<in> set (runed_functions (outcome_state (exec_func st body ws))))"
proof (cases "current_step st \<in> set (runed_functions st) \<and> ws")
  case True
  then show ?thesis by (simp add: exec_func_def push_state_def)
next
  case False
  define st2 where "st2 = (if ws
       then (push_state st)\<lparr>runed_functions := runed_functions (push_state st) @ [current_step (push_state st)]\<rparr>
       else st)"
  define r where "r = exec_func_loop body (current_step st2) False st2"
  have fr: "same_frame st2 (loop_state r)" unfolding r_def by (rule exec_func_loop_frame)
  have e: "exec_func st body ws =
       (case r of Inl (ex, st3) \<Rightarrow> Raised ex st3
        | Inr (i, st3) \<Rightarrow> if ws then Returned (insert_popstate st3 i) else Returned st3)"
    using False by (auto simp: exec_func_def Let_def st2_def r_def push_state_def)
  show ?thesis
  proof (cases r)
    case (Inl x)
    then show ?thesis using fr e
      by (cases x) (auto simp: loop_state_def same_frame_def st2_def push_state_def)
  next
    case (Inr y)
    then show ?thesis using fr e
      by (cases y) (auto simp: loop_state_def same_frame_def st2_def push_state_def insert_popstate_fields)
  qed
qed

lemma exec_func_guarded:
  "current_step st \<in> set (runed_functions st) \<Longrightarrow> exec_func st body True = Returned (push_state st)"
  by (simp add: exec_func_def push_state_def)

text \<open>
  Claim C5. When \<open>exec_func\<close> is entered for a call (\<open>with_state\<close>) and the program counter
  is already among the call sites in \<open>runed_functions\<close>, it only pushes the frame: the
  operation list, the section table and the object store are the ones before, so the
  body is not spliced again. A call that has returned leaves its call site in
  \<open>runed_functions\<close> and the program counter where it was, so a second call from the
  state reached splices nothing, whatever body it is given. The same holds for the call
  as \<open>run\<close> makes it.
\<close>

theorem reentrancy_guard:
  "(current_step st \<in> set (runed_functions st) \<longrightarrow>
      exec_func st func_body True = Returned (push_state st)
      \<and> operations (push_state st) = operations st \<and> sections (push_state st) = sections st
      \<and> heap (push_state st) = heap st)
   \<and> (exec_func st func_body True = Returned st1 \<longrightarrow>
      exec_func st1 body2 True = Returned (push_state st1)
      \<and> operations (push_state st1) = operations st1)
   \<and> (lookup_func st (command (heap st ! a)) = Some func_body \<and> args_str (heap st ! a) = []
        \<and> current_step st \<in> set (runed_functions st) \<longrightarrow>
      run_call ev st a = Returned (push_state (st\<lparr>mem := VStr []\<rparr>))
      \<and> operations (push_state (st\<lparr>mem := VStr []\<rparr>)) = operations st)"
proof -
  have a: "exec_func st func_body True = Returned st1 \<longrightarrow>
      exec_func st1 body2 True = Returned (push_state st1)"
  proof
    assume e: "exec_func st func_body True = Returned st1"
    have "current_step st1 = current_step st" "current_step st \<in> set (runed_functions st1)"
      using exec_func_frame [of st func_body True] e by simp_all
    then show "exec_func st1 body2 True = Returned (push_state st1)"
      by (intro exec_func_guarded) simp
  qed
  have b: "lookup_func st (command (heap st ! a)) = Some func_body \<and> args_str (heap st ! a) = []
        \<and> current_step st \<in> set (runed_functions st) \<longrightarrow>
      run_call ev st a = Returned (push_state (st\<lparr>mem := VStr []\<rparr>))"
    using exec_func_guarded [of "st\<lparr>mem := VStr []\<rparr>" func_body]
    by (simp add: run_call_def Let_def)
  show ?thesis using a b by (simp add: exec_func_guarded push_state_def)
qed

theorem reentrancy_guard_witness:
  "exec_func splice_example [4, 5] True = Returned spliced_example
   \<and> exec_func spliced_example [4, 5] True = Returned (push_state spliced_example)
   \<and> operations (push_state spliced_example) = operations spliced_example
   \<and> current_step spliced_example \<in> set (runed_functions spliced_example)
   \<and> sections (push_state spliced_example) = sections spliced_example"
proof -
  have e: "exec_func splice_example [4, 5] True = Returned spliced_example"
    by (simp add: exec_func_def push_state_def Let_def set_operation_index_def exec_func_loop.simps
        update_section_indexes_def py_insert_def insert_popstate_def new_op_def spliced_example_def
        splice_example_def Program_def set_var_def mk_op_def)
  have g: "current_step spliced_example \<in> set (runed_functions spliced_example)"
    by (simp add: spliced_example_def splice_example_def Program_def set_var_def)
  note t1 = reentrancy_guard [of splice_example "[4, 5]" spliced_example "[4, 5]" 0 literal_evaluator,
      THEN conjunct2, THEN conjunct1, THEN mp, OF e]
  note t2 = reentrancy_guard [of spliced_example "[4, 5]" spliced_example "[4, 5]" 0 literal_evaluator,
      THEN conjunct1, THEN mp, OF g]
  show ?thesis
    by (intro conjI) (rule e g t1 [THEN conjunct1] t1 [THEN conjunct2]
        t2 [THEN conjunct2, THEN conjunct2, THEN conjunct1])+
qed

lemma length_states_exec_func:
  "length (states (outcome_state (exec_func st body ws))) = (if ws then Suc (length (states st)) else length (states st))"
  using exec_func_frame [of st body ws] by simp

lemma length_states_run_popstate:
  "length (states (run_popstate st)) = length (states st) - 1"
  by (simp add: run_popstate_def)

lemma length_states_apply_event:
  "length (states (apply_event st e)) = depth_after (length (states st)) e"
proof (cases e)
  case (Exec_func c body ws)
  then show ?thesis using length_states_exec_func [of "st\<lparr>current_step := c\<rparr>" body ws] by simp
next
  case Popstate
  then show ?thesis by (simp add: length_states_run_popstate)
next
  case (Set_var x v)
  then show ?thesis by (simp add: set_var_def)
next
  case (Change_object r v)
  then show ?thesis by (simp add: change_object_def)
qed

text \<open>
  Claim C6, as amended. A call of \<open>exec_func\<close> with \<open>with_state\<close> pushes exactly one frame
  (also when the re-entrancy guard skips the splice, and when the splice raises); without
  \<open>with_state\<close> it pushes none; a \<open>popstate\<close> pops exactly one frame when the call stack is
  not empty and none when it is empty. So after any sequence of calls, \<open>popstate\<close>
  operations and variable writes the depth of the call stack is the depth before, plus
  one for every call with \<open>with_state\<close>, minus one for every \<open>popstate\<close> that found a frame.
\<close>

theorem call_stack_depth:
  "length (states (outcome_state (exec_func st func_body True))) = Suc (length (states st))
   \<and> length (states (outcome_state (exec_func st func_body False))) = length (states st)
   \<and> length (states (run_popstate st)) = (if states st = [] then 0 else length (states st) - 1)
   \<and> length (states (foldl apply_event st evs)) = foldl depth_after (length (states st)) evs"
proof -
  have "length (states (foldl apply_event st evs)) = foldl depth_after (length (states st)) evs"
  proof (induction evs arbitrary: st)
    case Nil
    show ?case by simp
  next
    case (Cons e evs)
    show ?case using Cons.IH [of "apply_event st e"] by (simp add: length_states_apply_event)
  qed
  then show ?thesis
    by (simp add: length_states_exec_func length_states_run_popstate)
qed

text \<open>
  The claim C6 as stated fails: a \<open>popstate\<close> on an empty call stack pops no frame,
  and a call of \<open>exec_func\<close> without \<open>with_state\<close> pushes none.
\<close>

theorem popstate_pops_no_frame:
  "command (heap popstate_example ! 0) = ''popstate''
   \<and> states popstate_example = []
   \<and> states (outcome_state (run idle_handlers literal_evaluator popstate_example 0)) = []
   \<and> length (states (outcome_state (run idle_handlers literal_evaluator popstate_example 0))) + 1
        \<noteq> length (states popstate_example)
   \<and> length (states (outcome_state (exec_func splice_example [4, 5] False)))
        \<noteq> length (states splice_example) + 1"
proof -
  have c: "command (heap popstate_example ! 0) = ''popstate''"
    by (simp add: popstate_example_def mk_op_def)
  have s: "states popstate_example = []"
    by (simp add: popstate_example_def Program_def set_var_def)
  have r: "states (outcome_state (run idle_handlers literal_evaluator popstate_example 0)) = []"
    using s by (simp add: run_popstate_op [OF c] run_popstate_def)
  have x: "length (states (outcome_state (exec_func splice_example [4, 5] False)))
        \<noteq> length (states splice_example) + 1"
    by (simp add: length_states_exec_func)
  show ?thesis using c s r x by simp
qed

















subsection \<open>Finding the function of a call\<close>

lemma used_lookup_none:
  "\<forall>w \<in> set us. map_of fs (w @ ''.'' @ n) = None \<Longrightarrow> used_lookup fs n us acc = acc"
  by (induction us arbitrary: acc) simp_all

lemma used_lookup_last:
  assumes "us = before @ u # after" and "map_of fs (u @ ''.'' @ n) = Some b"
    and "\<forall>w \<in> set after. map_of fs (w @ ''.'' @ n) = None"
  shows "used_lookup fs n us acc = Some b"
proof -
  have "used_lookup fs n (before @ u # after) acc = used_lookup fs n (u # after) (used_lookup fs n before acc)" for acc
    by (induction before arbitrary: acc) simp_all
  then show ?thesis using assms by (simp add: used_lookup_none)
qed

text \<open>
  The claim C2 as stated fails: with the used namespaces \<open>a\<close> and \<open>b\<close>, declared in this
  order and both declaring \<open>f\<close>, the first match is \<open>a.f\<close>, and \<open>run\<close> finds \<open>b.f\<close>.
\<close>

theorem namespace_first_match_fails:
  "current_namespace namespace_example = [] \<and> used_namespaces namespace_example = [''a'', ''b'']
   \<and> map_of (functions_tab namespace_example) ''a.f'' = Some [1]
   \<and> map_of (functions_tab namespace_example) ''b.f'' = Some [2]
   \<and> lookup_func_spec namespace_example ''f'' = Some [1]
   \<and> lookup_func namespace_example ''f'' = Some [2]"
  by (simp add: namespace_example_def Program_def set_var_def lookup_func_def lookup_func_spec_def)

text \<open>
  Claim C2, as amended. The body of a name that is not a command is looked up (a) under
  the current namespace prefix; (b) if that fails, in the used namespaces, where the
  namespace declared last among those that declare the name wins (stated for a body that
  is not empty); (c) under the bare name if no used namespace declares it. When nothing
  is found, \<open>run\<close> calls \<open>raise_error\<close> with \<open>SyntaxError\<close> and the message
  \<open>undefined operation "name"\<close> for the operation it is running.
\<close>

theorem lookup_func_order:
  "(map_of (functions_tab st) (current_namespace st @ n) = Some b \<longrightarrow> lookup_func st n = Some b)
   \<and> (map_of (functions_tab st) (current_namespace st @ n) = None
        \<and> used_namespaces st = before @ u # after
        \<and> map_of (functions_tab st) (u @ ''.'' @ n) = Some b \<and> b \<noteq> []
        \<and> (\<forall>w \<in> set after. map_of (functions_tab st) (w @ ''.'' @ n) = None)
      \<longrightarrow> lookup_func st n = Some b)
   \<and> (map_of (functions_tab st) (current_namespace st @ n) = None
        \<and> (\<forall>w \<in> set (used_namespaces st). map_of (functions_tab st) (w @ ''.'' @ n) = None)
      \<longrightarrow> lookup_func st n = map_of (functions_tab st) n)
   \<and> (command (heap st ! a) = n \<and> not_a_command n \<and> not_recording st \<and> lookup_func st n = None
      \<longrightarrow> run hs ev st a
            = raise_error (set_operation_index st a) ''SyntaxError'' (undefined_operation n) a)"
proof -
  have a: "map_of (functions_tab st) (current_namespace st @ n) = Some b \<longrightarrow> lookup_func st n = Some b"
    by (simp add: lookup_func_def)
  have b: "map_of (functions_tab st) (current_namespace st @ n) = None
        \<and> used_namespaces st = before @ u # after
        \<and> map_of (functions_tab st) (u @ ''.'' @ n) = Some b \<and> b \<noteq> []
        \<and> (\<forall>w \<in> set after. map_of (functions_tab st) (w @ ''.'' @ n) = None)
      \<longrightarrow> lookup_func st n = Some b"
  proof
    assume h: "map_of (functions_tab st) (current_namespace st @ n) = None
        \<and> used_namespaces st = before @ u # after
        \<and> map_of (functions_tab st) (u @ ''.'' @ n) = Some b \<and> b \<noteq> []
        \<and> (\<forall>w \<in> set after. map_of (functions_tab st) (w @ ''.'' @ n) = None)"
    then have "used_lookup (functions_tab st) n (used_namespaces st) None = Some b"
      by (intro used_lookup_last [where before = before and u = u and after = after]) simp_all
    then show "lookup_func st n = Some b" using h by (simp add: lookup_func_def)
  qed
  have c: "map_of (functions_tab st) (current_namespace st @ n) = None
        \<and> (\<forall>w \<in> set (used_namespaces st). map_of (functions_tab st) (w @ ''.'' @ n) = None)
      \<longrightarrow> lookup_func st n = map_of (functions_tab st) n"
    by (simp add: lookup_func_def used_lookup_none)
  have d: "command (heap st ! a) = n \<and> not_a_command n \<and> not_recording st \<and> lookup_func st n = None
      \<longrightarrow> run hs ev st a
            = raise_error (set_operation_index st a) ''SyntaxError'' (undefined_operation n) a"
  proof
    assume h: "command (heap st ! a) = n \<and> not_a_command n \<and> not_recording st \<and> lookup_func st n = None"
    then have "run hs ev st a = run_call ev (set_operation_index st a) a"
      by (intro run_is_run_call) simp_all
    then show "run hs ev st a
            = raise_error (set_operation_index st a) ''SyntaxError'' (undefined_operation n) a"
      using h by (simp add: run_call_def Let_def)
  qed
  show ?thesis by (intro conjI) (rule a b c d)+
qed

theorem lookup_func_order_witness:
  "map_of (functions_tab precedence_example) (current_namespace precedence_example @ ''f'') = Some [0]
   \<and> lookup_func precedence_example ''f'' = Some [0]
   \<and> map_of (functions_tab namespace_example) (current_namespace namespace_example @ ''f'') = None
   \<and> used_namespaces namespace_example = [''a''] @ ''b'' # []
   \<and> map_of (functions_tab namespace_example) (''b'' @ ''.'' @ ''f'') = Some [2]
   \<and> lookup_func namespace_example ''f'' = Some [2]
   \<and> map_of (functions_tab undefined_example) (current_namespace undefined_example @ ''nothing'') = None
   \<and> lookup_func undefined_example ''nothing'' = None
   \<and> command (heap undefined_example ! 0) = ''nothing'' \<and> not_a_command ''nothing''
   \<and> not_recording undefined_example
   \<and> run idle_handlers literal_evaluator undefined_example 0
       = Returned (undefined_example\<lparr>
           heap := [(mk_op ''nothing'' [] [])\<lparr>index := Some 0\<rparr>],
           runtime_error := Some (''SyntaxError'', ''undefined operation '' @ [CHR 0x22] @ ''nothing'' @ [CHR 0x22], 0)\<rparr>)"
proof -
  have p1: "map_of (functions_tab precedence_example) (current_namespace precedence_example @ ''f'') = Some [0]"
    by (simp add: precedence_example_def namespace_example_def)
  note t1 = lookup_func_order [of precedence_example "''f''" "[0]", THEN conjunct1, THEN mp, OF p1]
  have p2: "map_of (functions_tab namespace_example) (current_namespace namespace_example @ ''f'') = None"
      "used_namespaces namespace_example = [''a''] @ ''b'' # []"
      "map_of (functions_tab namespace_example) (''b'' @ ''.'' @ ''f'') = Some [2]"
    by (simp_all add: namespace_example_def Program_def set_var_def)
  have p2': "map_of (functions_tab namespace_example) (current_namespace namespace_example @ ''f'') = None
        \<and> used_namespaces namespace_example = [''a''] @ ''b'' # []
        \<and> map_of (functions_tab namespace_example) (''b'' @ ''.'' @ ''f'') = Some [2] \<and> [2::nat] \<noteq> []
        \<and> (\<forall>w \<in> set []. map_of (functions_tab namespace_example) (w @ ''.'' @ ''f'') = None)"
    using p2 by simp
  note t2 = lookup_func_order [of namespace_example "''f''" "[2]" "[''a'']" "''b''" "[]",
      THEN conjunct2, THEN conjunct1, THEN mp, OF p2']
  have p3: "map_of (functions_tab undefined_example) (current_namespace undefined_example @ ''nothing'') = None"
    by (simp add: undefined_example_def Program_def set_var_def)
  have p3': "map_of (functions_tab undefined_example) (current_namespace undefined_example @ ''nothing'') = None
      \<and> (\<forall>w \<in> set (used_namespaces undefined_example).
            map_of (functions_tab undefined_example) (w @ ''.'' @ ''nothing'') = None)"
    by (simp add: undefined_example_def Program_def set_var_def)
  have t3: "lookup_func undefined_example ''nothing'' = None"
    using lookup_func_order [of undefined_example "''nothing''", THEN conjunct2, THEN conjunct2,
        THEN conjunct1, THEN mp, OF p3']
    by (simp add: undefined_example_def Program_def set_var_def)
  have c: "command (heap undefined_example ! 0) = ''nothing''"
    by (simp add: undefined_example_def mk_op_def)
  have nc: "not_a_command ''nothing''"
    by (simp add: not_a_command_def builtin_commands_def)
  have nr: "not_recording undefined_example"
    by (simp add: not_recording_def undefined_example_def Program_def set_var_def)
  have p4: "command (heap undefined_example ! 0) = ''nothing'' \<and> not_a_command ''nothing''
      \<and> not_recording undefined_example \<and> lookup_func undefined_example ''nothing'' = None"
    using c nc nr t3 by simp
  note t4 = lookup_func_order [of undefined_example "''nothing''" _ _ _ _ 0 idle_handlers literal_evaluator,
      THEN conjunct2, THEN conjunct2, THEN conjunct2, THEN mp, OF p4]
  have r: "run idle_handlers literal_evaluator undefined_example 0
       = Returned (undefined_example\<lparr>
           heap := [(mk_op ''nothing'' [] [])\<lparr>index := Some 0\<rparr>],
           runtime_error := Some (''SyntaxError'', ''undefined operation '' @ [CHR 0x22] @ ''nothing'' @ [CHR 0x22], 0)\<rparr>)"
    unfolding t4
    by (simp add: raise_error_def set_operation_index_def undefined_operation_def
        undefined_example_def Program_def set_var_def mk_op_def)
  show ?thesis by (intro conjI) (rule p1 t1 p2 t2 p3 t3 c nc nr r)+
qed

subsection \<open>Loading the sections\<close>

lemma link_loop_done:
  "\<not> i < length (operations st) \<Longrightarrow> link_loop i f st = Returned st"
  by (subst link_loop.simps) simp

lemma link_loop_step:
  assumes "i < length (operations st)" and "link_loop i f st = Returned st'"
  shows "link_loop (Suc i) (next_in_func (command (heap st ! (operations st ! i))) f) (link_next i f st)
           = Returned st'"
proof -
  define a where "a = operations st ! i"
  define st1 where "st1 = set_operation_index st a"
  have c: "command (heap st1 ! a) = command (heap st ! a)" "args (heap st1 ! a) = args (heap st ! a)"
    by (simp_all add: st1_def)
  have u: "link_loop i f st =
     (if command (heap st ! a) = ''section'' then
              (if \<not> f then
                 (case args (heap st ! a) of
                    [] \<Rightarrow> Raised index_error st1
                  | arg # _ \<Rightarrow> link_loop (i + 1) f (link_section st1 i arg))
               else link_loop (i + 1) f st1)
            else if command (heap st ! a) = ''func'' then link_loop (i + 1) True st1
            else if command (heap st ! a) = ''endfunc'' then link_loop (i + 1) False st1
            else link_loop (i + 1) f st1)"
    using assms(1) c by (subst link_loop.simps) (simp add: Let_def a_def [symmetric] st1_def [symmetric])
  show ?thesis
  proof (cases "command (heap st ! a) = ''section'' \<and> \<not> f")
    case True
    then obtain arg rest where ar: "args (heap st ! a) = arg # rest"
      using assms(2) u by (cases "args (heap st ! a)") simp_all
    have n: "link_next i f st = link_section st1 i arg"
      using True ar by (simp add: link_next_def label_name_def a_def [symmetric] st1_def [symmetric])
    have e: "link_loop i f st = link_loop (Suc i) f (link_section st1 i arg)"
      using u True ar by simp
    have f': "next_in_func (command (heap st ! a)) f = f"
      using True by (simp add: next_in_func_def)
    show ?thesis unfolding a_def [symmetric] f' n using assms(2) e by simp
  next
    case False
    have n: "link_next i f st = st1"
      using False by (auto simp: link_next_def a_def [symmetric] st1_def [symmetric])
    have e: "link_loop i f st = link_loop (Suc i) (next_in_func (command (heap st ! a)) f) st1"
      using u False by (auto simp: next_in_func_def)
    show ?thesis unfolding a_def [symmetric] n using assms(2) e by simp
  qed
qed

lemma link_loop_label_args:
  assumes "i < length (operations st)" and "link_loop i f st = Returned st'"
    and "command (heap st ! (operations st ! i)) = ''section''" and "\<not> f"
  shows "args (heap st ! (operations st ! i)) \<noteq> []"
proof
  assume e: "args (heap st ! (operations st ! i)) = []"
  have "link_loop i f st = Raised index_error (set_operation_index st (operations st ! i))"
    using assms(1,3,4) e by (subst link_loop.simps) (simp add: Let_def)
  then show False using assms(2) by simp
qed

lemma link_next_fields:
  "operations (link_next i f st) = (if is_label i f st then (operations st)[i := length (heap st)] else operations st)"
  "heap (link_next i f st) =
     (if is_label i f st then heap (set_operation_index st (operations st ! i)) @ [parse_single ''pass'']
      else heap (set_operation_index st (operations st ! i)))"
  "sections (link_next i f st) =
     (if is_label i f st then AList.update (label_name st i) (int i + 1) (sections st) else sections st)"
  by (simp_all add: link_next_def is_label_def link_section_def new_op_def)

lemma link_next_shape:
  "length (operations (link_next i f st)) = length (operations st)"
  "take i (operations (link_next i f st)) = take i (operations st)"
  "drop (Suc i) (operations (link_next i f st)) = drop (Suc i) (operations st)"
  "length (heap st) \<le> length (heap (link_next i f st))"
  "j \<noteq> i \<Longrightarrow> operations (link_next i f st) ! j = operations st ! j"
  by (simp_all add: link_next_fields)

lemma link_next_heap_old:
  assumes "b < length (heap st)"
  shows "command (heap (link_next i f st) ! b) = command (heap st ! b)"
    and "args (heap (link_next i f st) ! b) = args (heap st ! b)"
    and "b \<noteq> operations st ! i \<Longrightarrow> heap (link_next i f st) ! b = heap st ! b"
proof -
  have l: "b < length (heap (set_operation_index st (operations st ! i)))" using assms by simp
  have a: "heap (link_next i f st) ! b = heap (set_operation_index st (operations st ! i)) ! b"
    using l by (simp add: link_next_fields nth_append)
  show "command (heap (link_next i f st) ! b) = command (heap st ! b)"
    and "args (heap (link_next i f st) ! b) = args (heap st ! b)"
    unfolding a by simp_all
  assume "b \<noteq> operations st ! i"
  then show "heap (link_next i f st) ! b = heap st ! b"
    unfolding a by (simp add: set_operation_index_def)
qed

lemma ops_stored_next:
  assumes "ops_stored i st"
  shows "ops_stored (Suc i) (link_next i f st)"
  unfolding ops_stored_def link_next_shape(3)
proof
  fix a assume "a \<in> set (drop (Suc i) (operations st))"
  then have "a \<in> set (drop i (operations st))"
    using set_drop_subset_set_drop [of i "Suc i" "operations st"] by auto
  then have "a < length (heap st)" using assms by (simp add: ops_stored_def)
  then show "a < length (heap (link_next i f st))"
    using link_next_shape(4) [of st i f] by simp
qed

lemma ops_stored_nth:
  assumes "ops_stored i st" and "i \<le> j" and "j < length (operations st)"
  shows "operations st ! j < length (heap st)"
proof -
  have e: "drop i (operations st) ! (j - i) = operations st ! j" using assms by simp
  have "j - i < length (drop i (operations st))" using assms by simp
  then have "drop i (operations st) ! (j - i) \<in> set (drop i (operations st))" by (rule nth_mem)
  then show ?thesis using assms(1) unfolding e by (simp add: ops_stored_def)
qed

lemma link_loop_induct':
  assumes run: "link_loop i f st = Returned st'"
    and base: "\<And>i f. \<not> i < length (operations st') \<Longrightarrow> P i f st'"
    and step: "\<And>i f st. i < length (operations st) \<Longrightarrow> link_loop i f st = Returned st' \<Longrightarrow>
        link_loop (Suc i) (next_in_func (command (heap st ! (operations st ! i))) f) (link_next i f st)
          = Returned st' \<Longrightarrow>
        P (Suc i) (next_in_func (command (heap st ! (operations st ! i))) f) (link_next i f st) \<Longrightarrow>
        P i f st"
  shows "P i f st"
  using run
proof (induction "length (operations st) - i" arbitrary: i f st)
  case 0
  then have n: "\<not> i < length (operations st)" by simp
  then have e: "st = st'" using 0(2) by (simp add: link_loop_done)
  have "P i f st'" using n [unfolded e] by (rule base)
  then show ?case unfolding e .
next
  case (Suc n)
  then have l: "i < length (operations st)" by simp
  note s = link_loop_step [OF l Suc.prems]
  have m: "n = length (operations (link_next i f st)) - Suc i"
    using Suc.hyps(2) by (simp add: link_next_shape)
  have ih: "P (Suc i) (next_in_func (command (heap st ! (operations st ! i))) f) (link_next i f st)"
    using m s by (rule Suc.hyps(1))
  show ?case using l Suc.prems s ih by (rule step)
qed

lemma link_loop_shape:
  assumes "link_loop i f st = Returned st'"
  shows "length (operations st') = length (operations st) \<and> take i (operations st') = take i (operations st)
       \<and> length (heap st) \<le> length (heap st')"
proof (rule link_loop_induct' [OF assms, where P = "\<lambda>i f st.
     length (operations st') = length (operations st) \<and> take i (operations st') = take i (operations st)
       \<and> length (heap st) \<le> length (heap st')"], goal_cases)
  case (1 i f)
  show ?case by simp
next
  case (2 i f st)
  have "take i (take (Suc i) (operations st')) = take i (take (Suc i) (operations (link_next i f st)))"
    using 2(4) by simp
  then have "take i (operations st') = take i (operations st)"
    by (simp add: min_def link_next_shape)
  then show ?case using 2(4) link_next_shape(1) [of i f st] link_next_shape(4) [of st i f] by simp
qed

lemma label_at_cong:
  "\<forall>a \<in> set as. command (h' ! a) = command (h ! a) \<Longrightarrow> label_at h' f as k = label_at h f as k"
proof (induction as arbitrary: f k)
  case Nil
  show ?case by simp
next
  case (Cons a as)
  then show ?case by (cases k) simp_all
qed

lemma label_at_drop:
  assumes "i < length xs"
  shows "label_at h f (drop i xs) 0 = (command (h ! (xs ! i)) = ''section'' \<and> \<not> f)"
    and "label_at h f (drop i xs) (Suc k)
          = label_at h (next_in_func (command (h ! (xs ! i))) f) (drop (Suc i) xs) k"
  using Cons_nth_drop_Suc [OF assms, symmetric] by simp_all

lemma link_next_label_later:
  assumes "ops_stored i st"
  shows "label_at (heap (link_next i f st)) g (drop (Suc i) (operations (link_next i f st))) k
           = label_at (heap st) g (drop (Suc i) (operations st)) k"
  unfolding link_next_shape(3)
proof (rule label_at_cong, rule ballI)
  fix a assume "a \<in> set (drop (Suc i) (operations st))"
  then have "a \<in> set (drop i (operations st))"
    using set_drop_subset_set_drop [of i "Suc i" "operations st"] by auto
  then have "a < length (heap st)" using assms by (simp add: ops_stored_def)
  then show "command (heap (link_next i f st) ! a) = command (heap st ! a)"
    by (rule link_next_heap_old(1))
qed

lemma label_at_later:
  assumes "i < length (operations st)" and "ops_stored i st" and "i < j"
  shows "label_at (heap st) f (drop i (operations st)) (j - i)
       = label_at (heap (link_next i f st)) (next_in_func (command (heap st ! (operations st ! i))) f)
           (drop (Suc i) (operations (link_next i f st))) (j - Suc i)"
proof -
  have e: "j - i = Suc (j - Suc i)" using assms(3) by simp
  show ?thesis unfolding e label_at_drop(2) [OF assms(1)] link_next_label_later [OF assms(2)] ..
qed

lemma link_loop_store:
  assumes "link_loop i f st = Returned st'"
  shows "ops_stored i st \<longrightarrow>
     (\<forall>b < length (heap st). b \<notin> set (drop i (operations st)) \<longrightarrow> heap st' ! b = heap st ! b)"
proof (rule link_loop_induct' [OF assms, where P = "\<lambda>i f st. ops_stored i st \<longrightarrow>
     (\<forall>b < length (heap st). b \<notin> set (drop i (operations st)) \<longrightarrow> heap st' ! b = heap st ! b)"], goal_cases)
  case (1 i f)
  show ?case by simp
next
  case (2 i f st)
  show ?case
  proof (intro impI allI)
    fix b assume w: "ops_stored i st" and b: "b < length (heap st)" and n: "b \<notin> set (drop i (operations st))"
    have d: "drop i (operations st) = operations st ! i # drop (Suc i) (operations st)"
      using 2(1) by (simp add: Cons_nth_drop_Suc)
    have ne: "b \<noteq> operations st ! i" and n': "b \<notin> set (drop (Suc i) (operations (link_next i f st)))"
      using n unfolding d link_next_shape(3) by simp_all
    have b': "b < length (heap (link_next i f st))"
      using b link_next_shape(4) [of st i f] by simp
    have "heap st' ! b = heap (link_next i f st) ! b"
      using 2(4) ops_stored_next [OF w] b' n' by blast
    also have "\<dots> = heap st ! b" using b ne by (rule link_next_heap_old(3))
    finally show "heap st' ! b = heap st ! b" .
  qed
qed

lemma link_loop_labels:
  assumes "link_loop i f st = Returned st'"
  shows "ops_stored i st \<longrightarrow>
     (\<forall>j. i \<le> j \<and> j < length (operations st) \<and> label_at (heap st) f (drop i (operations st)) (j - i) \<longrightarrow>
        heap st' ! (operations st' ! j) = parse_single ''pass'' \<and> length (heap st) \<le> operations st' ! j)"
proof (rule link_loop_induct' [OF assms, where P = "\<lambda>i f st. ops_stored i st \<longrightarrow>
     (\<forall>j. i \<le> j \<and> j < length (operations st) \<and> label_at (heap st) f (drop i (operations st)) (j - i) \<longrightarrow>
        heap st' ! (operations st' ! j) = parse_single ''pass'' \<and> length (heap st) \<le> operations st' ! j)"],
    goal_cases)
  case (1 i f)
  then show ?case by simp
next
  case (2 i f st)
  define sn where "sn = link_next i f st"
  define g where "g = next_in_func (command (heap st ! (operations st ! i))) f"
  note run' = 2(3) [folded sn_def g_def]
  note ih = 2(4) [folded sn_def g_def]
  show ?case
  proof (intro impI allI, elim conjE)
    fix j assume w: "ops_stored i st" and ij: "i \<le> j" and jl: "j < length (operations st)"
      and la: "label_at (heap st) f (drop i (operations st)) (j - i)"
    have wn: "ops_stored (Suc i) sn" unfolding sn_def using w by (rule ops_stored_next)
    show "heap st' ! (operations st' ! j) = parse_single ''pass'' \<and> length (heap st) \<le> operations st' ! j"
    proof (cases "j = i")
      case True
      have lab: "is_label i f st"
        using la 2(1) by (simp add: True label_at_drop(1) is_label_def)
      have on: "operations sn ! i = length (heap st)"
        using lab 2(1) by (simp add: sn_def link_next_fields)
      have hn: "heap sn ! length (heap st) = parse_single ''pass''" "length (heap st) < length (heap sn)"
        using lab by (simp_all add: sn_def link_next_fields nth_append)
      have "take (Suc i) (operations st') = take (Suc i) (operations sn)"
        using link_loop_shape [OF run'] by simp
      then have "take (Suc i) (operations st') ! i = take (Suc i) (operations sn) ! i" by simp
      then have o': "operations st' ! i = length (heap st)" using on by simp
      have nin: "length (heap st) \<notin> set (drop (Suc i) (operations sn))"
      proof
        assume "length (heap st) \<in> set (drop (Suc i) (operations sn))"
        then have "length (heap st) \<in> set (drop i (operations st))"
          unfolding sn_def link_next_shape(3)
          using set_drop_subset_set_drop [of i "Suc i" "operations st"] by auto
        then show False using w by (auto simp: ops_stored_def)
      qed
      have "heap st' ! length (heap st) = heap sn ! length (heap st)"
        using link_loop_store [OF run'] wn hn(2) nin by blast
      then show ?thesis using o' hn(1) by (simp add: True)
    next
      case False
      then have lt: "i < j" using ij by simp
      have la': "label_at (heap sn) g (drop (Suc i) (operations sn)) (j - Suc i)"
        using la unfolding label_at_later [OF 2(1) w lt, of f] sn_def g_def .
      have jl': "j < length (operations sn)" using jl by (simp add: sn_def link_next_shape)
      have "heap st' ! (operations st' ! j) = parse_single ''pass'' \<and> length (heap sn) \<le> operations st' ! j"
        using ih wn lt jl' la' by auto
      then show ?thesis using link_next_shape(4) [of st i f] by (simp add: sn_def)
    qed
  qed
qed

lemma link_loop_others:
  assumes "link_loop i f st = Returned st'"
  shows "ops_stored i st \<longrightarrow>
     (\<forall>j. i \<le> j \<and> j < length (operations st) \<and> \<not> label_at (heap st) f (drop i (operations st)) (j - i) \<longrightarrow>
        operations st' ! j = operations st ! j)"
proof (rule link_loop_induct' [OF assms, where P = "\<lambda>i f st. ops_stored i st \<longrightarrow>
     (\<forall>j. i \<le> j \<and> j < length (operations st) \<and> \<not> label_at (heap st) f (drop i (operations st)) (j - i) \<longrightarrow>
        operations st' ! j = operations st ! j)"],
    goal_cases)
  case (1 i f)
  then show ?case by simp
next
  case (2 i f st)
  define sn where "sn = link_next i f st"
  define g where "g = next_in_func (command (heap st ! (operations st ! i))) f"
  note run' = 2(3) [folded sn_def g_def]
  note ih = 2(4) [folded sn_def g_def]
  show ?case
  proof (intro impI allI, elim conjE)
    fix j assume w: "ops_stored i st" and ij: "i \<le> j" and jl: "j < length (operations st)"
      and la: "\<not> label_at (heap st) f (drop i (operations st)) (j - i)"
    have wn: "ops_stored (Suc i) sn" unfolding sn_def using w by (rule ops_stored_next)
    show "operations st' ! j = operations st ! j"
    proof (cases "j = i")
      case True
      have lab: "\<not> is_label i f st"
        using la 2(1) by (simp add: True label_at_drop(1) is_label_def)
      have on: "operations sn ! i = operations st ! i"
        using lab by (simp add: sn_def link_next_fields)
      have "take (Suc i) (operations st') = take (Suc i) (operations sn)"
        using link_loop_shape [OF run'] by simp
      then have "take (Suc i) (operations st') ! i = take (Suc i) (operations sn) ! i" by simp
      then show ?thesis using on by (simp add: True)
    next
      case False
      then have lt: "i < j" using ij by simp
      have la': "\<not> label_at (heap sn) g (drop (Suc i) (operations sn)) (j - Suc i)"
        using la unfolding label_at_later [OF 2(1) w lt, of f] sn_def g_def .
      have jl': "j < length (operations sn)" using jl by (simp add: sn_def link_next_shape)
      have "operations st' ! j = operations sn ! j"
        using ih wn lt jl' la' by auto
      then show ?thesis using False by (simp add: sn_def link_next_shape(5))
    qed
  qed
qed

lemma label_name_later:
  assumes "ops_stored i st" and "i < j" and "j < length (operations st)"
  shows "label_name (link_next i f st) j = label_name st j"
proof -
  have a: "operations st ! j < length (heap st)"
    using assms by (intro ops_stored_nth [where i = i]) simp_all
  have o: "operations (link_next i f st) ! j = operations st ! j"
    using assms(2) by (simp add: link_next_shape(5))
  show ?thesis unfolding label_name_def o link_next_heap_old(2) [OF a] ..
qed

lemma link_loop_sections_kept:
  assumes "link_loop i f st = Returned st'"
  shows "ops_stored i st \<longrightarrow>
     (\<forall>l. (\<forall>j. i \<le> j \<and> j < length (operations st) \<and> label_at (heap st) f (drop i (operations st)) (j - i)
              \<longrightarrow> label_name st j \<noteq> l) \<longrightarrow>
          map_of (sections st') l = map_of (sections st) l)"
proof (rule link_loop_induct' [OF assms, where P = "\<lambda>i f st. ops_stored i st \<longrightarrow>
     (\<forall>l. (\<forall>j. i \<le> j \<and> j < length (operations st) \<and> label_at (heap st) f (drop i (operations st)) (j - i)
              \<longrightarrow> label_name st j \<noteq> l) \<longrightarrow>
          map_of (sections st') l = map_of (sections st) l)"], goal_cases)
  case (1 i f)
  show ?case by simp
next
  case (2 i f st)
  define sn where "sn = link_next i f st"
  define g where "g = next_in_func (command (heap st ! (operations st ! i))) f"
  note ih = 2(4) [folded sn_def g_def]
  show ?case
  proof (intro impI allI)
    fix l assume w: "ops_stored i st"
      and H: "\<forall>j. i \<le> j \<and> j < length (operations st) \<and> label_at (heap st) f (drop i (operations st)) (j - i)
              \<longrightarrow> label_name st j \<noteq> l"
    have wn: "ops_stored (Suc i) sn" unfolding sn_def using w by (rule ops_stored_next)
    have Hn: "\<forall>j. Suc i \<le> j \<and> j < length (operations sn) \<and> label_at (heap sn) g (drop (Suc i) (operations sn)) (j - Suc i)
              \<longrightarrow> label_name sn j \<noteq> l"
    proof (intro allI impI, elim conjE)
      fix j assume a: "Suc i \<le> j" "j < length (operations sn)"
        "label_at (heap sn) g (drop (Suc i) (operations sn)) (j - Suc i)"
      have lt: "i < j" and jl: "j < length (operations st)"
        using a(1,2) by (simp_all add: sn_def link_next_shape)
      have "label_at (heap st) f (drop i (operations st)) (j - i)"
        unfolding label_at_later [OF 2(1) w lt, of f] using a(3) by (simp add: sn_def g_def)
      then have "label_name st j \<noteq> l" using H lt jl by simp
      then show "label_name sn j \<noteq> l"
        unfolding sn_def label_name_later [OF w lt jl] .
    qed
    have e: "map_of (sections st') l = map_of (sections sn) l" using ih wn Hn by blast
    have "map_of (sections sn) l = map_of (sections st) l"
    proof (cases "is_label i f st")
      case True
      then have "label_at (heap st) f (drop i (operations st)) (i - i)"
        using 2(1) by (simp add: label_at_drop(1) is_label_def)
      then have "label_name st i \<noteq> l" using H 2(1) by blast
      then show ?thesis using True by (simp add: sn_def link_next_fields update_conv')
    next
      case False
      then show ?thesis by (simp add: sn_def link_next_fields)
    qed
    then show "map_of (sections st') l = map_of (sections st) l" using e by simp
  qed
qed

lemma link_loop_sections_last:
  assumes "link_loop i f st = Returned st'"
  shows "ops_stored i st \<longrightarrow>
     (\<forall>j. i \<le> j \<and> j < length (operations st) \<and> label_at (heap st) f (drop i (operations st)) (j - i)
          \<and> (\<forall>k. j < k \<and> k < length (operations st) \<and> label_at (heap st) f (drop i (operations st)) (k - i)
                \<longrightarrow> label_name st k \<noteq> label_name st j)
        \<longrightarrow> map_of (sections st') (label_name st j) = Some (int j + 1))"
proof (rule link_loop_induct' [OF assms, where P = "\<lambda>i f st. ops_stored i st \<longrightarrow>
     (\<forall>j. i \<le> j \<and> j < length (operations st) \<and> label_at (heap st) f (drop i (operations st)) (j - i)
          \<and> (\<forall>k. j < k \<and> k < length (operations st) \<and> label_at (heap st) f (drop i (operations st)) (k - i)
                \<longrightarrow> label_name st k \<noteq> label_name st j)
        \<longrightarrow> map_of (sections st') (label_name st j) = Some (int j + 1))"], goal_cases)
  case (1 i f)
  then show ?case by simp
next
  case (2 i f st)
  define sn where "sn = link_next i f st"
  define g where "g = next_in_func (command (heap st ! (operations st ! i))) f"
  note run' = 2(3) [folded sn_def g_def]
  note ih = 2(4) [folded sn_def g_def]
  show ?case
  proof (intro impI allI, elim conjE)
    fix j assume w: "ops_stored i st" and ij: "i \<le> j" and jl: "j < length (operations st)"
      and la: "label_at (heap st) f (drop i (operations st)) (j - i)"
      and H: "\<forall>k. j < k \<and> k < length (operations st) \<and> label_at (heap st) f (drop i (operations st)) (k - i)
                \<longrightarrow> label_name st k \<noteq> label_name st j"
    have wn: "ops_stored (Suc i) sn" unfolding sn_def using w by (rule ops_stored_next)
    have Hn: "\<forall>k. j < k \<and> k < length (operations sn) \<and> label_at (heap sn) g (drop (Suc i) (operations sn)) (k - Suc i)
              \<longrightarrow> label_name sn k \<noteq> label_name st j"
    proof (intro allI impI, elim conjE)
      fix k assume a: "j < k" "k < length (operations sn)"
        "label_at (heap sn) g (drop (Suc i) (operations sn)) (k - Suc i)"
      have lt: "i < k" and kl: "k < length (operations st)"
        using a(1,2) ij by (simp_all add: sn_def link_next_shape)
      have "label_at (heap st) f (drop i (operations st)) (k - i)"
        unfolding label_at_later [OF 2(1) w lt, of f] using a(3) by (simp add: sn_def g_def)
      then have "label_name st k \<noteq> label_name st j" using H a(1) kl by simp
      then show "label_name sn k \<noteq> label_name st j"
        unfolding sn_def label_name_later [OF w lt kl] .
    qed
    show "map_of (sections st') (label_name st j) = Some (int j + 1)"
    proof (cases "j = i")
      case True
      have lab: "is_label i f st"
        using la 2(1) by (simp add: True label_at_drop(1) is_label_def)
      have s: "map_of (sections sn) (label_name st i) = Some (int i + 1)"
        using lab by (simp add: sn_def link_next_fields update_conv')
      have "\<forall>k. Suc i \<le> k \<and> k < length (operations sn) \<and> label_at (heap sn) g (drop (Suc i) (operations sn)) (k - Suc i)
              \<longrightarrow> label_name sn k \<noteq> label_name st i"
        using Hn by (simp add: True)
      then have "map_of (sections st') (label_name st i) = map_of (sections sn) (label_name st i)"
        using link_loop_sections_kept [OF run'] wn by blast
      then show ?thesis using s by (simp add: True)
    next
      case False
      then have lt: "i < j" using ij by simp
      have la': "label_at (heap sn) g (drop (Suc i) (operations sn)) (j - Suc i)"
        using la unfolding label_at_later [OF 2(1) w lt, of f] sn_def g_def .
      have jl': "j < length (operations sn)" using jl by (simp add: sn_def link_next_shape)
      have n: "label_name sn j = label_name st j"
        unfolding sn_def by (rule label_name_later [OF w lt jl])
      have "map_of (sections st') (label_name sn j) = Some (int j + 1)"
        using ih wn lt jl' la' Hn unfolding n [symmetric] by auto
      then show ?thesis unfolding n .
    qed
  qed
qed

lemma run_pass:
  assumes "command (heap s ! a) = ''pass''"
  shows "sections (outcome_state (run hs ev s a)) = sections s"
    and "not_recording s \<Longrightarrow> run hs ev s a = Returned (set_operation_index s a)"
proof -
  have n: "''pass'' \<notin> set builtin_commands" by (simp add: builtin_commands_def)
  have c: "run_command hs ev (set_operation_index s a) a = Returned (set_operation_index s a)"
    using assms n by (simp add: run_command_def Let_def)
  show "sections (outcome_state (run hs ev s a)) = sections s"
    using assms c by (simp add: run_def Let_def split: option.splits)
  assume "not_recording s"
  then have "not_recording (set_operation_index s a)"
    by (simp add: not_recording_def set_operation_index_def split: option.splits)
  then show "run hs ev s a = Returned (set_operation_index s a)"
    using assms c by (simp add: run_def Let_def not_recording_def split: option.splits)
qed

lemma link_pass_returned:
  assumes "link_loop 0 False st = Returned st'" and "ops_stored 0 st"
  shows "length (operations st') = length (operations st)
     \<and> (\<forall>j < length (operations st).
          (label_at (heap st) False (operations st) j \<longrightarrow>
             heap st' ! (operations st' ! j) = parse_single ''pass''
             \<and> sections (outcome_state (run hs ev st' (operations st' ! j))) = sections st'
             \<and> (not_recording st' \<longrightarrow>
                  run hs ev st' (operations st' ! j) = Returned (set_operation_index st' (operations st' ! j)))
             \<and> ((\<forall>k. j < k \<and> k < length (operations st) \<and> label_at (heap st) False (operations st) k
                     \<longrightarrow> label_name st k \<noteq> label_name st j)
                \<longrightarrow> map_of (sections st') (label_name st j) = Some (int j + 1)))
          \<and> (\<not> label_at (heap st) False (operations st) j \<longrightarrow> operations st' ! j = operations st ! j))
     \<and> (\<forall>s a. command (heap s ! a) = ''pass'' \<longrightarrow>
            sections (outcome_state (run hs ev s a)) = sections s
            \<and> (not_recording s \<longrightarrow> run hs ev s a = Returned (set_operation_index s a)))"
proof -
  note sh = link_loop_shape [OF assms(1)]
  note lb = link_loop_labels [OF assms(1), THEN mp, OF assms(2), rule_format]
  note ot = link_loop_others [OF assms(1), THEN mp, OF assms(2), rule_format]
  note sl = link_loop_sections_last [OF assms(1), THEN mp, OF assms(2), rule_format]
  have A: "length (operations st') = length (operations st)" using sh by simp
  have B: "label_at (heap st) False (operations st) j \<longrightarrow>
             heap st' ! (operations st' ! j) = parse_single ''pass''
             \<and> sections (outcome_state (run hs ev st' (operations st' ! j))) = sections st'
             \<and> (not_recording st' \<longrightarrow>
                  run hs ev st' (operations st' ! j) = Returned (set_operation_index st' (operations st' ! j)))
             \<and> ((\<forall>k. j < k \<and> k < length (operations st) \<and> label_at (heap st) False (operations st) k
                     \<longrightarrow> label_name st k \<noteq> label_name st j)
                \<longrightarrow> map_of (sections st') (label_name st j) = Some (int j + 1))"
    if jl: "j < length (operations st)" for j
  proof
    assume la: "label_at (heap st) False (operations st) j"
    have p: "heap st' ! (operations st' ! j) = parse_single ''pass''"
      using lb [of j] jl la by simp
    then have c: "command (heap st' ! (operations st' ! j)) = ''pass''"
      by (simp add: parse_single_def)
    have l: "(\<forall>k. j < k \<and> k < length (operations st) \<and> label_at (heap st) False (operations st) k
                     \<longrightarrow> label_name st k \<noteq> label_name st j)
                \<longrightarrow> map_of (sections st') (label_name st j) = Some (int j + 1)"
    proof
      assume "\<forall>k. j < k \<and> k < length (operations st) \<and> label_at (heap st) False (operations st) k
                     \<longrightarrow> label_name st k \<noteq> label_name st j"
      then show "map_of (sections st') (label_name st j) = Some (int j + 1)"
        using sl [of j] jl la by simp
    qed
    show "heap st' ! (operations st' ! j) = parse_single ''pass''
             \<and> sections (outcome_state (run hs ev st' (operations st' ! j))) = sections st'
             \<and> (not_recording st' \<longrightarrow>
                  run hs ev st' (operations st' ! j) = Returned (set_operation_index st' (operations st' ! j)))
             \<and> ((\<forall>k. j < k \<and> k < length (operations st) \<and> label_at (heap st) False (operations st) k
                     \<longrightarrow> label_name st k \<noteq> label_name st j)
                \<longrightarrow> map_of (sections st') (label_name st j) = Some (int j + 1))"
      using p run_pass(1) [OF c] run_pass(2) [OF c] l by blast
  qed
  have C: "\<not> label_at (heap st) False (operations st) j \<longrightarrow> operations st' ! j = operations st ! j"
    if jl: "j < length (operations st)" for j
    using ot [of j] jl by simp
  have D: "\<forall>s a. command (heap s ! a) = ''pass'' \<longrightarrow>
            sections (outcome_state (run hs ev s a)) = sections s
            \<and> (not_recording s \<longrightarrow> run hs ev s a = Returned (set_operation_index s a))"
    using run_pass by blast
  show ?thesis using A B C D by blast
qed

lemma link_loop_unfold:
  assumes "i < length (operations st)"
    and "is_label i f st \<longrightarrow> args (heap st ! (operations st ! i)) \<noteq> []"
  shows "link_loop i f st
       = link_loop (Suc i) (next_in_func (command (heap st ! (operations st ! i))) f) (link_next i f st)"
proof -
  define a where "a = operations st ! i"
  define st1 where "st1 = set_operation_index st a"
  have c: "command (heap st1 ! a) = command (heap st ! a)" "args (heap st1 ! a) = args (heap st ! a)"
    by (simp_all add: st1_def)
  have u: "link_loop i f st =
     (if command (heap st ! a) = ''section'' then
              (if \<not> f then
                 (case args (heap st ! a) of
                    [] \<Rightarrow> Raised index_error st1
                  | arg # _ \<Rightarrow> link_loop (i + 1) f (link_section st1 i arg))
               else link_loop (i + 1) f st1)
            else if command (heap st ! a) = ''func'' then link_loop (i + 1) True st1
            else if command (heap st ! a) = ''endfunc'' then link_loop (i + 1) False st1
            else link_loop (i + 1) f st1)"
    using assms(1) c by (subst link_loop.simps) (simp add: Let_def a_def [symmetric] st1_def [symmetric])
  show ?thesis
  proof (cases "command (heap st ! a) = ''section'' \<and> \<not> f")
    case True
    then obtain arg rest where ar: "args (heap st ! a) = arg # rest"
      using assms(2) by (cases "args (heap st ! a)") (simp_all add: is_label_def a_def)
    have n: "link_next i f st = link_section st1 i arg"
      using True ar by (simp add: link_next_def label_name_def a_def [symmetric] st1_def [symmetric])
    have e: "link_loop i f st = link_loop (Suc i) f (link_section st1 i arg)"
      using u True ar by simp
    have f': "next_in_func (command (heap st ! a)) f = f"
      using True by (simp add: next_in_func_def)
    show ?thesis unfolding a_def [symmetric] f' n using e by simp
  next
    case False
    have n: "link_next i f st = st1"
      using False by (auto simp: link_next_def a_def [symmetric] st1_def [symmetric])
    have e: "link_loop i f st = link_loop (Suc i) (next_in_func (command (heap st ! a)) f) st1"
      using u False by (auto simp: next_in_func_def)
    show ?thesis unfolding a_def [symmetric] n using e by simp
  qed
qed

lemma args_later:
  assumes "ops_stored i st" and "i < j" and "j < length (operations st)"
  shows "args (heap (link_next i f st) ! (operations (link_next i f st) ! j))
       = args (heap st ! (operations st ! j))"
proof -
  have a: "operations st ! j < length (heap st)"
    using assms by (intro ops_stored_nth [where i = i]) simp_all
  have o: "operations (link_next i f st) ! j = operations st ! j"
    using assms(2) by (simp add: link_next_shape(5))
  show ?thesis unfolding o link_next_heap_old(2) [OF a] ..
qed

lemma link_loop_returns:
  "ops_stored i st \<Longrightarrow>
   (\<forall>j. i \<le> j \<and> j < length (operations st) \<and> label_at (heap st) f (drop i (operations st)) (j - i)
        \<longrightarrow> args (heap st ! (operations st ! j)) \<noteq> []) \<Longrightarrow>
   \<exists>st'. link_loop i f st = Returned st'"
proof (induction "length (operations st) - i" arbitrary: i f st)
  case 0
  then have "\<not> i < length (operations st)" by simp
  then show ?case by (simp add: link_loop_done)
next
  case (Suc n)
  then have l: "i < length (operations st)" by simp
  define sn where "sn = link_next i f st"
  define g where "g = next_in_func (command (heap st ! (operations st ! i))) f"
  have la0: "is_label i f st \<longrightarrow> args (heap st ! (operations st ! i)) \<noteq> []"
  proof
    assume "is_label i f st"
    then have "label_at (heap st) f (drop i (operations st)) (i - i)"
      using l by (simp add: label_at_drop(1) is_label_def)
    then show "args (heap st ! (operations st ! i)) \<noteq> []" using Suc.prems(2) l by blast
  qed
  have u: "link_loop i f st = link_loop (Suc i) g sn"
    unfolding sn_def g_def using l la0 by (rule link_loop_unfold)
  have m: "n = length (operations sn) - Suc i"
    using Suc.hyps(2) by (simp add: sn_def link_next_shape)
  have wn: "ops_stored (Suc i) sn" unfolding sn_def using Suc.prems(1) by (rule ops_stored_next)
  have Hn: "\<forall>j. Suc i \<le> j \<and> j < length (operations sn) \<and> label_at (heap sn) g (drop (Suc i) (operations sn)) (j - Suc i)
        \<longrightarrow> args (heap sn ! (operations sn ! j)) \<noteq> []"
  proof (intro allI impI, elim conjE)
    fix j assume a: "Suc i \<le> j" "j < length (operations sn)"
      "label_at (heap sn) g (drop (Suc i) (operations sn)) (j - Suc i)"
    have lt: "i < j" and jl: "j < length (operations st)"
      using a(1,2) by (simp_all add: sn_def link_next_shape)
    have "label_at (heap st) f (drop i (operations st)) (j - i)"
      unfolding label_at_later [OF l Suc.prems(1) lt, of f] using a(3) by (simp add: sn_def g_def)
    then have "args (heap st ! (operations st ! j)) \<noteq> []" using Suc.prems(2) lt jl by simp
    then show "args (heap sn ! (operations sn ! j)) \<noteq> []"
      unfolding sn_def args_later [OF Suc.prems(1) lt jl] .
  qed
  show ?case unfolding u using m wn Hn by (rule Suc.hyps(1))
qed

text \<open>
  Claim C7. On an operation list whose operations are objects of the store and whose
  label declarations outside function definitions have an argument, the first loop of
  \<open>start\<close> returns; it is one pass over the positions \<open>0, 1, ...\<close> of the list, which
  keeps its length. At every position that held such a label declaration the list now
  holds a new \<open>pass\<close> operation, and the section table maps the label to the position plus
  one (when no later declaration uses the same label, which would overwrite it); every
  other position holds the operation it held. Running a \<open>pass\<close> operation, in the state
  after the loop or in any later state, leaves the section table as it is, and when no
  function is being declared it changes nothing but the index written on the operation.
\<close>

theorem link_pass:
  assumes "ops_stored 0 st"
    and "\<forall>j < length (operations st). label_at (heap st) False (operations st) j
            \<longrightarrow> args (heap st ! (operations st ! j)) \<noteq> []"
  shows "\<exists>st'. link_loop 0 False st = Returned st'
     \<and> length (operations st') = length (operations st)
     \<and> (\<forall>j < length (operations st).
          (label_at (heap st) False (operations st) j \<longrightarrow>
             heap st' ! (operations st' ! j) = parse_single ''pass''
             \<and> sections (outcome_state (run hs ev st' (operations st' ! j))) = sections st'
             \<and> (not_recording st' \<longrightarrow>
                  run hs ev st' (operations st' ! j) = Returned (set_operation_index st' (operations st' ! j)))
             \<and> ((\<forall>k. j < k \<and> k < length (operations st) \<and> label_at (heap st) False (operations st) k
                     \<longrightarrow> label_name st k \<noteq> label_name st j)
                \<longrightarrow> map_of (sections st') (label_name st j) = Some (int j + 1)))
          \<and> (\<not> label_at (heap st) False (operations st) j \<longrightarrow> operations st' ! j = operations st ! j))
     \<and> (\<forall>s a. command (heap s ! a) = ''pass'' \<longrightarrow>
            sections (outcome_state (run hs ev s a)) = sections s
            \<and> (not_recording s \<longrightarrow> run hs ev s a = Returned (set_operation_index s a)))"
proof -
  have H: "\<forall>j. 0 \<le> j \<and> j < length (operations st) \<and> label_at (heap st) False (drop 0 (operations st)) (j - 0)
        \<longrightarrow> args (heap st ! (operations st ! j)) \<noteq> []"
    using assms(2) by simp
  from link_loop_returns [OF assms(1) H] obtain st' where r: "link_loop 0 False st = Returned st'" ..
  show ?thesis
    by (rule exI [of _ st'], rule conjI [OF r], rule link_pass_returned [OF r assms(1)])
qed

theorem link_pass_witness:
  "ops_stored 0 link_example
   \<and> label_at (heap link_example) False (operations link_example) 0
   \<and> args (heap link_example ! (operations link_example ! 0)) \<noteq> []
   \<and> label_at (heap link_example) False (operations link_example) 5
   \<and> args (heap link_example ! (operations link_example ! 5)) \<noteq> []
   \<and> label_name link_example 5 = ''done''
   \<and> \<not> label_at (heap link_example) False (operations link_example) 3
   \<and> link_loop 0 False link_example = Returned linked_example
   \<and> length (operations linked_example) = length (operations link_example)
   \<and> heap linked_example ! (operations linked_example ! 5) = parse_single ''pass''
   \<and> map_of (sections linked_example) ''done'' = Some 6
   \<and> operations linked_example ! 3 = operations link_example ! 3
   \<and> not_recording linked_example
   \<and> run idle_handlers literal_evaluator linked_example (operations linked_example ! 5)
       = Returned (set_operation_index linked_example (operations linked_example ! 5))"
proof -
  have e: "link_loop 0 False link_example = Returned linked_example"
    by (simp add: link_loop.simps Let_def set_operation_index_def link_section_def new_op_def
        link_example_def linked_example_def Program_def set_var_def mk_op_def parse_single_def)
  have w: "ops_stored 0 link_example"
    by (simp add: ops_stored_def link_example_def)
  have len: "length (operations link_example) = 6" by (simp add: link_example_def)
  have l0: "label_at (heap link_example) False (operations link_example) 0"
    by (simp add: link_example_def mk_op_def)
  have a0: "args (heap link_example ! (operations link_example ! 0)) \<noteq> []"
    by (simp add: link_example_def mk_op_def)
  have l5: "label_at (heap link_example) False (operations link_example) 5"
    by (simp add: link_example_def mk_op_def next_in_func_def eval_nat_numeral)
  have a5: "args (heap link_example ! (operations link_example ! 5)) \<noteq> []"
    by (simp add: link_example_def mk_op_def)
  have n5: "label_name link_example 5 = ''done''"
    by (simp add: label_name_def link_example_def mk_op_def)
  have l3: "\<not> label_at (heap link_example) False (operations link_example) 3"
    by (simp add: link_example_def mk_op_def next_in_func_def eval_nat_numeral)
  have n1: "\<not> label_at (heap link_example) False (operations link_example) 1"
    and n2: "\<not> label_at (heap link_example) False (operations link_example) 2"
    and n4: "\<not> label_at (heap link_example) False (operations link_example) 4"
    by (simp_all add: link_example_def mk_op_def next_in_func_def eval_nat_numeral)
  have cs: "j = 0 \<or> j = 1 \<or> j = 2 \<or> j = 3 \<or> j = 4 \<or> j = 5"
    if "j < length (operations link_example)" for j
    using that unfolding len by arith
  have ah: "\<forall>j < length (operations link_example). label_at (heap link_example) False (operations link_example) j
            \<longrightarrow> args (heap link_example ! (operations link_example ! j)) \<noteq> []"
  proof (intro allI impI)
    fix j assume jl: "j < length (operations link_example)"
      and la: "label_at (heap link_example) False (operations link_example) j"
    from cs [OF jl] la n1 n2 l3 n4 have "j = 0 \<or> j = 5" by blast
    then show "args (heap link_example ! (operations link_example ! j)) \<noteq> []"
      using a0 a5 by blast
  qed
  from link_pass [OF w ah, of idle_handlers literal_evaluator]
  obtain st' where tt: "link_loop 0 False link_example = Returned st'
     \<and> length (operations st') = length (operations link_example)
     \<and> (\<forall>j < length (operations link_example).
          (label_at (heap link_example) False (operations link_example) j \<longrightarrow>
             heap st' ! (operations st' ! j) = parse_single ''pass''
             \<and> sections (outcome_state (run idle_handlers literal_evaluator st' (operations st' ! j))) = sections st'
             \<and> (not_recording st' \<longrightarrow>
                  run idle_handlers literal_evaluator st' (operations st' ! j)
                    = Returned (set_operation_index st' (operations st' ! j)))
             \<and> ((\<forall>k. j < k \<and> k < length (operations link_example)
                       \<and> label_at (heap link_example) False (operations link_example) k
                     \<longrightarrow> label_name link_example k \<noteq> label_name link_example j)
                \<longrightarrow> map_of (sections st') (label_name link_example j) = Some (int j + 1)))
          \<and> (\<not> label_at (heap link_example) False (operations link_example) j
                \<longrightarrow> operations st' ! j = operations link_example ! j))
     \<and> (\<forall>s a. command (heap s ! a) = ''pass'' \<longrightarrow>
            sections (outcome_state (run idle_handlers literal_evaluator s a)) = sections s
            \<and> (not_recording s \<longrightarrow> run idle_handlers literal_evaluator s a = Returned (set_operation_index s a)))" ..
  have eq: "st' = linked_example" using tt [THEN conjunct1] unfolding e by simp
  note t = tt [THEN conjunct2, unfolded eq]
  have j5: "(5::nat) < length (operations link_example)" and j3: "(3::nat) < length (operations link_example)"
    by (simp_all add: len)
  have last5: "\<forall>k. 5 < k \<and> k < length (operations link_example)
       \<and> label_at (heap link_example) False (operations link_example) k
       \<longrightarrow> label_name link_example k \<noteq> label_name link_example 5"
    unfolding len by auto
  have nr: "not_recording linked_example"
    by (simp add: not_recording_def linked_example_def link_example_def Program_def set_var_def)
  note a = t [THEN conjunct1]
  note t5 = t [THEN conjunct2, THEN conjunct1, rule_format, OF j5, THEN conjunct1, THEN mp, OF l5]
  note b = t5 [THEN conjunct1]
  note r = t5 [THEN conjunct2, THEN conjunct2, THEN conjunct1, THEN mp, OF nr]
  have c: "map_of (sections linked_example) ''done'' = Some 6"
    using t5 [THEN conjunct2, THEN conjunct2, THEN conjunct2, THEN mp, OF last5] by (simp add: n5)
  note d = t [THEN conjunct2, THEN conjunct1, rule_format, OF j3, THEN conjunct2, THEN mp, OF l3]
  show ?thesis by (intro conjI) (rule e w l0 a0 l5 a5 n5 l3 a b c d nr r)+
qed

end
